theory Spec2Isabelle
  imports Main "HOL-Library.Word"
begin

unbundle bit_operations_syntax

section \<open>Value model\<close>

text \<open>
  The reader of glisp turns a token stream into symbolic expressions (\<open>Sexp\<close>) and the
  list utilities walk and build cons chains of them. The Go declarations of the variants
  live in a file that is not among the sources, so the variants are the ones the parser
  and the list utilities construct and inspect: \<open>SexpNull\<close>, \<open>SexpEnd\<close>,
  \<open>SexpPair{head, tail}\<close>, symbols, \<open>SexpInt\<close>, \<open>SexpBool\<close>, \<open>SexpFloat\<close>,
  \<open>SexpChar\<close>, \<open>SexpStr\<close> and \<open>SexpArray\<close>.

  \<^item> The identity of a symbol belongs to the environment; \<open>'s\<close> is the type of symbol
    identities.
  \<^item> \<open>SexpInt\<close> is a signed machine integer of \<open>SexpIntSize\<close> bits, held as the
    integer it denotes. The constant \<open>SexpIntSize\<close> is declared outside the sources
    and is a parameter of the reader (section Reader).
  \<^item> \<open>SexpFloat\<close> is an IEEE double, kept opaque.
  \<^item> \<open>SexpChar\<close> holds the byte taken from the token text.
\<close>

typedecl float64

datatype 's Sexp =
    SexpNull
  | SexpEnd
  | SexpPair (head: "'s Sexp") (tail: "'s Sexp")
  | SexpSymbol 's
  | SexpInt int
  | SexpBool bool
  | SexpFloat float64
  | SexpChar char
  | SexpStr string
  | SexpArray "'s Sexp list"

text \<open>
  Token kinds, as \<open>ParseExpression\<close> and its helpers name them, and a token: a kind
  and its text.
\<close>

datatype TokenType =
    TokenLParen | TokenRParen | TokenLSquare | TokenRSquare | TokenLCurly | TokenRCurly
  | TokenDot | TokenQuote | TokenBacktick | TokenTilde | TokenTildeAt
  | TokenSymbol | TokenBool | TokenDecimal | TokenHex | TokenOct | TokenBinary
  | TokenFloat | TokenChar | TokenString | TokenEnd

datatype Token = Token (tok_typ: TokenType) (tok_str: string)

text \<open>
  Failures. \<open>ErrNotAList\<close> and \<open>ErrUnexpectedEnd\<close> are the two package-level error
  values; \<open>ErrorString\<close> is an \<open>errors.New\<close> with the given text; \<open>InvalidSyntax\<close> is
  the error \<open>ParseExpression\<close> builds from the offending token; \<open>NumError\<close> is what
  \<open>strconv\<close> returns; \<open>SourceError\<close> is a failure of the token source. A Go run-time
  panic unwinds through every caller exactly as a returned error is passed up by
  \<open>if err != nil { return ..., err }\<close>, so it is one more failure, \<open>RuntimePanic\<close>.

  A Go function returning \<open>(Sexp, error)\<close> is modelled with result type
  \<open>Error + Sexp\<close>: every caller in the sources drops the value that comes with a
  non-nil error.
\<close>

datatype NumErr = ErrSyntax | ErrRange | ErrBase | ErrBitSize

datatype Panic = IndexOutOfRange | TypeAssertion

datatype Error =
    ErrNotAList
  | ErrUnexpectedEnd
  | ErrorString string
  | InvalidSyntax Token
  | NumError NumErr
  | SourceError string
  | RuntimePanic Panic

section \<open>List utilities (listutils.go)\<close>

text \<open>
  Modelled from the spec: \<open>Cons\<close> (here \<open>Cons_sexp\<close>) and \<open>IsList\<close> are called by the
  list utilities but declared in a file that is not among the sources. \<open>Cons\<close> builds a pair; \<open>IsList v\<close>
  is true iff \<open>v\<close> is \<open>Null\<close> or a \<open>Pair\<close> chain whose every tail is \<open>Null\<close> or
  another \<open>Pair\<close>.
\<close>

definition Cons_sexp :: "'s Sexp \<Rightarrow> 's Sexp \<Rightarrow> 's Sexp" where
  "Cons_sexp a b = SexpPair a b"

fun IsList :: "'s Sexp \<Rightarrow> bool" where
  "IsList SexpNull = True"
| "IsList (SexpPair h t) = IsList t"
| "IsList _ = False"

text \<open>
  \<open>ListToArray\<close>: the loop runs while \<open>expr != SexpNull\<close>; the type assertion
  \<open>expr.(SexpPair)\<close> panics on any other variant.
\<close>

fun ListToArray_loop :: "'s Sexp \<Rightarrow> 's Sexp list \<Rightarrow> Error + 's Sexp list" where
  "ListToArray_loop SexpNull arr = Inr arr"
| "ListToArray_loop (SexpPair h t) arr = ListToArray_loop t (arr @ [h])"
| "ListToArray_loop _ arr = Inl (RuntimePanic TypeAssertion)"

definition ListToArray :: "'s Sexp \<Rightarrow> Error + 's Sexp list" where
  "ListToArray expr = (if \<not> IsList expr then Inl ErrNotAList else ListToArray_loop expr [])"

fun MakeList :: "'s Sexp list \<Rightarrow> 's Sexp" where
  "MakeList [] = SexpNull"
| "MakeList (e # expressions) = Cons_sexp e (MakeList expressions)"

text \<open>
  \<open>MapList\<close> calls the evaluator, \<open>env.Apply(fun, []Sexp{list.head})\<close>, which may
  change the interpreter. The interpreter state \<open>'st\<close> is threaded through, and
  \<open>Apply\<close> is a parameter: the evaluator is outside the sources.
\<close>

fun MapList :: "('st \<Rightarrow> 'fn \<Rightarrow> 's Sexp list \<Rightarrow> (Error + 's Sexp) \<times> 'st) \<Rightarrow>
    'st \<Rightarrow> 'fn \<Rightarrow> 's Sexp \<Rightarrow> (Error + 's Sexp) \<times> 'st" where
  "MapList Apply env fn SexpNull = (Inr SexpNull, env)"
| "MapList Apply env fn (SexpPair h t) =
     (case Apply env fn [h] of
        (Inl err, env1) \<Rightarrow> (Inl err, env1)
      | (Inr h', env1) \<Rightarrow>
          (case MapList Apply env1 fn t of
             (Inl err, env2) \<Rightarrow> (Inl err, env2)
           | (Inr t', env2) \<Rightarrow> (Inr (SexpPair h' t'), env2)))"
| "MapList Apply env fn _ = (Inl ErrNotAList, env)"

text \<open>
  \<open>ConcatList(a SexpPair, b Sexp)\<close>: the first argument has the static type
  \<open>SexpPair\<close>, so the function is defined on pairs only.
\<close>

fun ConcatList :: "'s Sexp \<Rightarrow> 's Sexp \<Rightarrow> Error + 's Sexp" where
  "ConcatList (SexpPair h t) b =
     (if \<not> IsList b then Inl ErrNotAList
      else if t = SexpNull then Inr (Cons_sexp h b)
      else (case t of
              SexpPair th tt \<Rightarrow>
                (case ConcatList (SexpPair th tt) b of
                   Inl err \<Rightarrow> Inl err
                 | Inr newtail \<Rightarrow> Inr (Cons_sexp h newtail))
            | _ \<Rightarrow> Inl ErrNotAList))"

text \<open>
  To observe which applications \<open>MapList\<close> makes and in which order: \<open>recording f\<close>
  is an evaluator whose interpreter state is the log of the argument lists it was
  applied to, and whose result on an argument list is \<open>f\<close> of it.
\<close>

definition recording :: "('s Sexp list \<Rightarrow> Error + 's Sexp) \<Rightarrow>
    's Sexp list list \<Rightarrow> 'fn \<Rightarrow> 's Sexp list \<Rightarrow> (Error + 's Sexp) \<times> 's Sexp list list" where
  "recording f log fn args = (f args, log @ [args])"

declare ConcatList.simps [simp del]

section \<open>Integer conversion (strconv.ParseInt of the Go library)\<close>

text \<open>
  The reader converts the text of an integer token with \<open>strconv.ParseInt(s, base,
  SexpIntSize)\<close>. The function belongs to the Go standard library; it is transcribed here
  for an explicit base between 2 and 36, which is how the reader calls it (base 0, where
  the base is read off a prefix of the text, is answered like any other base outside 2..36).
  \<open>ParseUint\<close> works on \<open>uint64\<close>: the addition \<open>n + d\<close> wraps modulo \<open>2^64\<close> and
  the test \<open>n1 < n\<close> detects it. Both functions return a value next to the error, and
  \<open>ParseInt\<close> reads the value \<open>ParseUint\<close> returns with a range error.
  \<open>lower c\<close> is \<open>c | ('x' - 'X')\<close>; \<open>IntSize\<close> is the size of \<open>int\<close> on the
  platform, used for \<open>bitSize = 0\<close> only.
\<close>

definition lower :: "nat \<Rightarrow> nat" where
  "lower c = c OR 32"

definition digitVal :: "char \<Rightarrow> nat option" where
  "digitVal ch =
     (let c = (of_char ch :: nat) in
      if 48 \<le> c \<and> c \<le> 57 then Some (c - 48)
      else if 97 \<le> lower c \<and> lower c \<le> 122 then Some (lower c - 97 + 10)
      else None)"

definition maxUint64 :: nat where
  "maxUint64 = 2 ^ 64 - 1"

definition IntSize :: nat where
  "IntSize = 64"

fun ParseUint_loop :: "nat \<Rightarrow> nat \<Rightarrow> nat \<Rightarrow> nat \<Rightarrow> string \<Rightarrow> nat \<times> NumErr option" where
  "ParseUint_loop base cutoff maxVal n [] = (n, None)"
| "ParseUint_loop base cutoff maxVal n (c # s) =
     (case digitVal c of
        None \<Rightarrow> (0, Some ErrSyntax)
      | Some d \<Rightarrow>
          if d \<ge> base then (0, Some ErrSyntax)
          else if n \<ge> cutoff then (maxVal, Some ErrRange)
          else (let n' = n * base; n1 = (n' + d) mod 2 ^ 64 in
                if n1 < n' \<or> n1 > maxVal then (maxVal, Some ErrRange)
                else ParseUint_loop base cutoff maxVal n1 s))"

definition ParseUint :: "string \<Rightarrow> nat \<Rightarrow> nat \<Rightarrow> nat \<times> NumErr option" where
  "ParseUint s base bitSize =
     (if s = [] then (0, Some ErrSyntax)
      else if \<not> (2 \<le> base \<and> base \<le> 36) then (0, Some ErrBase)
      else if bitSize > 64 then (0, Some ErrBitSize)
      else (let bitSize' = (if bitSize = 0 then IntSize else bitSize);
                cutoff = maxUint64 div base + 1;
                maxVal = 2 ^ bitSize' - 1
            in ParseUint_loop base cutoff maxVal 0 s))"

definition ParseInt :: "string \<Rightarrow> nat \<Rightarrow> nat \<Rightarrow> int \<times> NumErr option" where
  "ParseInt s base bitSize =
     (if s = [] then (0, Some ErrSyntax)
      else (let neg = (hd s = CHR ''-'');
                s' = (if hd s = CHR ''+'' \<or> hd s = CHR ''-'' then tl s else s)
            in case ParseUint s' base bitSize of
                 (un, err) \<Rightarrow>
                   if err \<noteq> None \<and> err \<noteq> Some ErrRange then (0, err)
                   else (let bitSize' = (if bitSize = 0 then IntSize else bitSize);
                             cutoff = 2 ^ (bitSize' - 1)
                         in if \<not> neg \<and> un \<ge> cutoff then (int cutoff - 1, Some ErrRange)
                            else if neg \<and> un > cutoff then (- int cutoff, Some ErrRange)
                            else (if neg then - int un else int un, None))))"


section \<open>Integer literals\<close>

text \<open>
  What the text of an integer token denotes in a radix, stated apart from the conversion
  routine: a digit is \<open>0\<close>..\<open>9\<close> or a letter of either case (\<open>a\<close> is ten), a digit of
  radix \<open>b\<close> is one below \<open>b\<close>, and a literal is an optional sign followed by at least one
  digit of the radix, read most significant digit first.
\<close>

definition digit_of_char :: "char \<Rightarrow> nat option" where
  "digit_of_char ch =
     (let c = (of_char ch :: nat) in
      if 48 \<le> c \<and> c \<le> 57 then Some (c - 48)
      else if 97 \<le> c \<and> c \<le> 122 then Some (c - 87)
      else if 65 \<le> c \<and> c \<le> 90 then Some (c - 55)
      else None)"

definition radix_digit :: "nat \<Rightarrow> char \<Rightarrow> bool" where
  "radix_digit b c = (case digit_of_char c of None \<Rightarrow> False | Some d \<Rightarrow> d < b)"

fun digits_value :: "nat \<Rightarrow> nat \<Rightarrow> string \<Rightarrow> nat" where
  "digits_value b n [] = n"
| "digits_value b n (c # s) = digits_value b (n * b + the (digit_of_char c)) s"

definition literal_value :: "nat \<Rightarrow> string \<Rightarrow> int option" where
  "literal_value b s =
     (case s of
        [] \<Rightarrow> None
      | c # ds \<Rightarrow>
          if c = CHR ''-'' then
            (if ds \<noteq> [] \<and> list_all (radix_digit b) ds then Some (- int (digits_value b 0 ds)) else None)
          else if c = CHR ''+'' then
            (if ds \<noteq> [] \<and> list_all (radix_digit b) ds then Some (int (digits_value b 0 ds)) else None)
          else
            (if list_all (radix_digit b) s then Some (int (digits_value b 0 s)) else None))"

section \<open>Reader (parser.go)\<close>

text \<open>
  Modelled from the spec: the environment and the token source are used by the reader
  but declared in files that are not among the sources.

  \<^item> \<open>MakeSymbol\<close> interns a name. Within one interpreter session equal names yield
    equal identity, so the interning of a session is a function from names to symbol
    identities.
  \<^item> \<open>ParseFloat\<close> stands for \<open>strconv.ParseFloat(s, SexpFloatSize)\<close> of the Go
    library, over the opaque doubles.
  \<^item> \<open>SexpIntSize\<close> is the bit width of \<open>SexpInt\<close>.
  \<^item> The token source yields classified tokens on demand with one token of lookahead:
    \<open>PeekNextToken\<close> does not consume, \<open>GetNextToken\<close> consumes. It is the list of
    what it will yield, a token or a failure of the source at each position; once the
    list is exhausted it yields the end-of-stream token \<open>EndTk\<close> for ever.
\<close>

record 's Glisp =
  MakeSymbol :: "string \<Rightarrow> 's"
  ParseFloat :: "string \<Rightarrow> NumErr + float64"
  SexpIntSize :: nat

type_synonym Lexer = "(Error + Token) list"

definition EndTk :: Token where
  "EndTk = Token TokenEnd []"

fun PeekNextToken :: "Lexer \<Rightarrow> Error + Token" where
  "PeekNextToken [] = Inr EndTk"
| "PeekNextToken (t # ts) = t"

fun GetNextToken :: "Lexer \<Rightarrow> (Error + Token) \<times> Lexer" where
  "GetNextToken [] = (Inr EndTk, [])"
| "GetNextToken (t # ts) = (t, ts)"

text \<open>
  An environment to run the reader on concrete token streams: symbols are identified by
  their names, integers have 64 bits, and no text converts to a double.
\<close>

definition env0 :: "string Glisp" where
  "env0 = \<lparr>MakeSymbol = (\<lambda>name. name), ParseFloat = (\<lambda>s. Inl ErrSyntax), SexpIntSize = 64\<rparr>"

text \<open>
  The four routines of the reader. The \<open>for\<close> loops of \<open>ParseArray\<close> and
  \<open>ParseHash\<close> are the functions \<open>ParseArray_loop\<close> and \<open>ParseHash_loop\<close>, whose
  argument \<open>arr\<close> is the slice built so far. Each routine returns its result and the
  token source as it has left it. \<open>tok.str[0]\<close> on an empty text is an index out of
  range. \<open>SexpInt(i)\<close> converts the \<open>int64\<close> to the \<open>SexpIntSize\<close>-bit integer.
\<close>

function ParseList :: "'s Glisp \<Rightarrow> Lexer \<Rightarrow> (Error + 's Sexp) \<times> Lexer"
  and ParseArray_loop :: "'s Glisp \<Rightarrow> 's Sexp list \<Rightarrow> Lexer \<Rightarrow> (Error + 's Sexp) \<times> Lexer"
  and ParseArray :: "'s Glisp \<Rightarrow> Lexer \<Rightarrow> (Error + 's Sexp) \<times> Lexer"
  and ParseHash_loop :: "'s Glisp \<Rightarrow> 's Sexp list \<Rightarrow> Lexer \<Rightarrow> (Error + 's Sexp list) \<times> Lexer"
  and ParseHash :: "'s Glisp \<Rightarrow> Lexer \<Rightarrow> (Error + 's Sexp) \<times> Lexer"
  and ParseExpression :: "'s Glisp \<Rightarrow> Lexer \<Rightarrow> (Error + 's Sexp) \<times> Lexer"
where
  "ParseList env lexer =
     (case PeekNextToken lexer of
        Inl err \<Rightarrow> (Inl err, lexer)
      | Inr tok \<Rightarrow>
          if tok_typ tok = TokenEnd then (Inl ErrUnexpectedEnd, snd (GetNextToken lexer))
          else if tok_typ tok = TokenRParen then (Inr SexpNull, snd (GetNextToken lexer))
          else
            (case ParseExpression env lexer of
               (Inl err, lexer1) \<Rightarrow> (Inl err, lexer1)
             | (Inr expr, lexer1) \<Rightarrow>
                 (case PeekNextToken lexer1 of
                    Inl err \<Rightarrow> (Inl err, lexer1)
                  | Inr tok \<Rightarrow>
                      if tok_typ tok = TokenDot then
                        (case ParseExpression env (snd (GetNextToken lexer1)) of
                           (Inl err, lexer2) \<Rightarrow> (Inl err, lexer2)
                         | (Inr expr', lexer2) \<Rightarrow>
                             (case GetNextToken lexer2 of
                                (Inl err, lexer3) \<Rightarrow> (Inl err, lexer3)
                              | (Inr tok, lexer3) \<Rightarrow>
                                  if tok_typ tok \<noteq> TokenRParen
                                  then (Inl (ErrorString ''extra value in dotted pair''), lexer3)
                                  else (Inr (SexpPair expr expr'), lexer3)))
                      else
                        (case ParseList env lexer1 of
                           (Inl err, lexer2) \<Rightarrow> (Inl err, lexer2)
                         | (Inr expr', lexer2) \<Rightarrow> (Inr (SexpPair expr expr'), lexer2)))))"
| "ParseArray_loop env arr lexer =
     (case PeekNextToken lexer of
        Inl err \<Rightarrow> (Inl err, lexer)
      | Inr tok \<Rightarrow>
          if tok_typ tok = TokenEnd then (Inl ErrUnexpectedEnd, lexer)
          else if tok_typ tok = TokenRSquare then (Inr (SexpArray arr), snd (GetNextToken lexer))
          else
            (case ParseExpression env lexer of
               (Inl err, lexer1) \<Rightarrow> (Inl err, lexer1)
             | (Inr expr, lexer1) \<Rightarrow> ParseArray_loop env (arr @ [expr]) lexer1))"
| "ParseArray env lexer = ParseArray_loop env [] lexer"
| "ParseHash_loop env arr lexer =
     (case PeekNextToken lexer of
        Inl err \<Rightarrow> (Inl err, lexer)
      | Inr tok \<Rightarrow>
          if tok_typ tok = TokenEnd then (Inl ErrUnexpectedEnd, lexer)
          else if tok_typ tok = TokenRCurly then (Inr arr, snd (GetNextToken lexer))
          else
            (case ParseExpression env lexer of
               (Inl err, lexer1) \<Rightarrow> (Inl err, lexer1)
             | (Inr expr, lexer1) \<Rightarrow> ParseHash_loop env (arr @ [expr]) lexer1))"
| "ParseHash env lexer =
     (case ParseHash_loop env [] lexer of
        (Inl err, lexer1) \<Rightarrow> (Inl err, lexer1)
      | (Inr arr, lexer1) \<Rightarrow>
          (Inr (SexpPair (SexpSymbol (MakeSymbol env ''hash'')) (MakeList arr)), lexer1))"
| "ParseExpression env lexer =
     (case GetNextToken lexer of
        (Inl err, lexer1) \<Rightarrow> (Inl err, lexer1)
      | (Inr tok, lexer1) \<Rightarrow>
          (case tok_typ tok of
             TokenLParen \<Rightarrow> ParseList env lexer1
           | TokenLSquare \<Rightarrow> ParseArray env lexer1
           | TokenLCurly \<Rightarrow> ParseHash env lexer1
           | TokenQuote \<Rightarrow>
               (case ParseExpression env lexer1 of
                  (Inl err, lexer2) \<Rightarrow> (Inl err, lexer2)
                | (Inr expr, lexer2) \<Rightarrow>
                    (Inr (MakeList [SexpSymbol (MakeSymbol env ''quote''), expr]), lexer2))
           | TokenBacktick \<Rightarrow>
               (case ParseExpression env lexer1 of
                  (Inl err, lexer2) \<Rightarrow> (Inl err, lexer2)
                | (Inr expr, lexer2) \<Rightarrow>
                    (Inr (MakeList [SexpSymbol (MakeSymbol env ''syntax-quote''), expr]), lexer2))
           | TokenTilde \<Rightarrow>
               (case ParseExpression env lexer1 of
                  (Inl err, lexer2) \<Rightarrow> (Inl err, lexer2)
                | (Inr expr, lexer2) \<Rightarrow>
                    (Inr (MakeList [SexpSymbol (MakeSymbol env ''unquote''), expr]), lexer2))
           | TokenTildeAt \<Rightarrow>
               (case ParseExpression env lexer1 of
                  (Inl err, lexer2) \<Rightarrow> (Inl err, lexer2)
                | (Inr expr, lexer2) \<Rightarrow>
                    (Inr (MakeList [SexpSymbol (MakeSymbol env ''unquote-splicing''), expr]), lexer2))
           | TokenSymbol \<Rightarrow> (Inr (SexpSymbol (MakeSymbol env (tok_str tok))), lexer1)
           | TokenBool \<Rightarrow> (Inr (SexpBool (tok_str tok = ''true'')), lexer1)
           | TokenDecimal \<Rightarrow>
               (case ParseInt (tok_str tok) 10 (SexpIntSize env) of
                  (i, Some err) \<Rightarrow> (Inl (NumError err), lexer1)
                | (i, None) \<Rightarrow> (Inr (SexpInt (signed_take_bit (SexpIntSize env - 1) i)), lexer1))
           | TokenHex \<Rightarrow>
               (case ParseInt (tok_str tok) 16 (SexpIntSize env) of
                  (i, Some err) \<Rightarrow> (Inl (NumError err), lexer1)
                | (i, None) \<Rightarrow> (Inr (SexpInt (signed_take_bit (SexpIntSize env - 1) i)), lexer1))
           | TokenOct \<Rightarrow>
               (case ParseInt (tok_str tok) 8 (SexpIntSize env) of
                  (i, Some err) \<Rightarrow> (Inl (NumError err), lexer1)
                | (i, None) \<Rightarrow> (Inr (SexpInt (signed_take_bit (SexpIntSize env - 1) i)), lexer1))
           | TokenBinary \<Rightarrow>
               (case ParseInt (tok_str tok) 2 (SexpIntSize env) of
                  (i, Some err) \<Rightarrow> (Inl (NumError err), lexer1)
                | (i, None) \<Rightarrow> (Inr (SexpInt (signed_take_bit (SexpIntSize env - 1) i)), lexer1))
           | TokenChar \<Rightarrow>
               (if 0 < length (tok_str tok) then (Inr (SexpChar (tok_str tok ! 0)), lexer1)
                else (Inl (RuntimePanic IndexOutOfRange), lexer1))
           | TokenString \<Rightarrow> (Inr (SexpStr (tok_str tok)), lexer1)
           | TokenFloat \<Rightarrow>
               (case ParseFloat env (tok_str tok) of
                  Inl err \<Rightarrow> (Inl (NumError err), lexer1)
                | Inr f \<Rightarrow> (Inr (SexpFloat f), lexer1))
           | TokenEnd \<Rightarrow> (Inr SexpEnd, lexer1)
           | _ \<Rightarrow> (Inl (InvalidSyntax tok), lexer1)))"
  by pat_completeness auto


section \<open>Token sequences of expressions\<close>

text \<open>
  \<open>reads_as env ts e\<close>: the token sequence \<open>ts\<close> is the text of the one expression \<open>e\<close>.
  Read with one more token after it, the reader returns \<open>e\<close> and leaves exactly that token
  (\<open>SexpEnd\<close> is the signal of the exhausted stream, not an expression).

  \<open>reads_locally f l\<close>: when the routine \<open>f\<close> succeeds on \<open>l\<close> and leaves a source that is
  not exhausted, then it has consumed a prefix of \<open>l\<close> and succeeds alike on that prefix
  followed by anything.
\<close>

definition reads_as :: "'s Glisp \<Rightarrow> Lexer \<Rightarrow> 's Sexp \<Rightarrow> bool" where
  "reads_as env ts e \<longleftrightarrow>
     e \<noteq> SexpEnd \<and> ParseExpression env (ts @ [Inr EndTk]) = (Inr e, [Inr EndTk])"

definition reads_locally :: "(Lexer \<Rightarrow> (Error + 'a) \<times> Lexer) \<Rightarrow> Lexer \<Rightarrow> bool" where
  "reads_locally f l \<longleftrightarrow>
     (\<forall>v r. f l = (Inr v, r) \<and> r \<noteq> [] \<longrightarrow> (\<exists>pre. l = pre @ r \<and> (\<forall>suf. f (pre @ suf) = (Inr v, suf))))"

section \<open>Termination of the reader\<close>

text \<open>
  Termination: every routine leaves a token source no longer than it found it, and
  \<open>ParseExpression\<close> consumes a token of a source that is not exhausted.
\<close>

lemma GetNextToken_length: "GetNextToken l = (r, l') \<Longrightarrow> length l' \<le> length l"
  by (cases l) auto

lemma GetNextToken_snd_length: "length (snd (GetNextToken l)) \<le> length l"
  by (cases l) auto

lemma GetNextToken_shorter:
  "GetNextToken l = (Inr tok, l') \<Longrightarrow> tok_typ tok \<noteq> TokenEnd \<Longrightarrow> length l' < length l"
  by (cases l) (auto simp: EndTk_def)

lemma PeekNextToken_nonempty:
  "PeekNextToken l = Inr tok \<Longrightarrow> tok_typ tok \<noteq> TokenEnd \<Longrightarrow> l \<noteq> []"
  by (cases l) (auto simp: EndTk_def)

lemma parser_length_partial:
  "ParseList_ParseArray_loop_ParseArray_ParseHash_loop_ParseHash_ParseExpression_dom (Inl (Inl (env, l)))
     \<Longrightarrow> length (snd (ParseList env l)) \<le> length l"
  "ParseList_ParseArray_loop_ParseArray_ParseHash_loop_ParseHash_ParseExpression_dom (Inl (Inr (Inl (env, arr, l))))
     \<Longrightarrow> length (snd (ParseArray_loop env arr l)) \<le> length l"
  "ParseList_ParseArray_loop_ParseArray_ParseHash_loop_ParseHash_ParseExpression_dom (Inl (Inr (Inr (env, l))))
     \<Longrightarrow> length (snd (ParseArray env l)) \<le> length l"
  "ParseList_ParseArray_loop_ParseArray_ParseHash_loop_ParseHash_ParseExpression_dom (Inr (Inl (env, arr', l)))
     \<Longrightarrow> length (snd (ParseHash_loop env arr' l)) \<le> length l"
  "ParseList_ParseArray_loop_ParseArray_ParseHash_loop_ParseHash_ParseExpression_dom (Inr (Inr (Inl (env, l))))
     \<Longrightarrow> length (snd (ParseHash env l)) \<le> length l"
  "ParseList_ParseArray_loop_ParseArray_ParseHash_loop_ParseHash_ParseExpression_dom (Inr (Inr (Inr (env, l))))
     \<Longrightarrow> length (snd (ParseExpression env l)) \<le> length l - (if l = [] then 0 else 1)"
proof (induct rule: ParseList_ParseArray_loop_ParseArray_ParseHash_loop_ParseHash_ParseExpression.pinduct)
  case (1 env lexer)
  note dom = "1.hyps"(1)
  show ?case
  proof (cases "PeekNextToken lexer")
    case (Inl err)
    then show ?thesis by (simp add: ParseList.psimps [OF dom])
  next
    case (Inr tok)
    show ?thesis
    proof (cases "tok_typ tok = TokenEnd \<or> tok_typ tok = TokenRParen")
      case True
      then show ?thesis
        using Inr by (auto simp: ParseList.psimps [OF dom] GetNextToken_snd_length)
    next
      case False
      then have t: "tok_typ tok \<noteq> TokenEnd" "tok_typ tok \<noteq> TokenRParen" by auto
      obtain r lexer1 where pe: "ParseExpression env lexer = (r, lexer1)" by fastforce
      have l1: "length lexer1 \<le> length lexer"
        using "1.hyps"(2) [OF Inr t] pe by simp
      show ?thesis
      proof (cases r)
        case (Inl err)
        then show ?thesis using Inr t pe l1 by (simp add: ParseList.psimps [OF dom])
      next
        case r: (Inr expr)
        show ?thesis
        proof (cases "PeekNextToken lexer1")
          case (Inl err)
          then show ?thesis using Inr t pe l1 r by (simp add: ParseList.psimps [OF dom])
        next
          case p1: (Inr tok1)
          show ?thesis
          proof (cases "tok_typ tok1 = TokenDot")
            case True
            obtain r2 lexer2 where pe2: "ParseExpression env (snd (GetNextToken lexer1)) = (r2, lexer2)"
              by fastforce
            have "length lexer2 \<le> length (snd (GetNextToken lexer1))"
              using "1.hyps"(3) [OF Inr t _ _ p1 True, of r expr] pe pe2 r by simp
            then have l2: "length lexer2 \<le> length lexer"
              using l1 GetNextToken_snd_length [of lexer1] by simp
            obtain r3 lexer3 where g3: "GetNextToken lexer2 = (r3, lexer3)" by fastforce
            then have "length lexer3 \<le> length lexer"
              using l2 GetNextToken_length by fastforce
            then show ?thesis
              using Inr t pe r p1 True pe2 l2 g3
              by (simp add: ParseList.psimps [OF dom] split: sum.splits)
          next
            case False
            obtain r2 lexer2 where pl: "ParseList env lexer1 = (r2, lexer2)" by fastforce
            have "length lexer2 \<le> length lexer1"
              using "1.hyps"(4) [OF Inr t _ _ p1 False, of r expr] pe pl r by simp
            then show ?thesis
              using Inr t pe r p1 False pl l1
              by (simp add: ParseList.psimps [OF dom] split: sum.splits)
          qed
        qed
      qed
    qed
  qed
next
  case (2 env arr lexer)
  note dom = "2.hyps"(1)
  show ?case
  proof (cases "PeekNextToken lexer")
    case (Inl err)
    then show ?thesis by (simp add: ParseArray_loop.psimps [OF dom])
  next
    case (Inr tok)
    show ?thesis
    proof (cases "tok_typ tok = TokenEnd \<or> tok_typ tok = TokenRSquare")
      case True
      then show ?thesis
        using Inr by (auto simp: ParseArray_loop.psimps [OF dom] GetNextToken_snd_length)
    next
      case False
      then have t: "tok_typ tok \<noteq> TokenEnd" "tok_typ tok \<noteq> TokenRSquare" by auto
      obtain r lexer1 where pe: "ParseExpression env lexer = (r, lexer1)" by fastforce
      have l1: "length lexer1 \<le> length lexer"
        using "2.hyps"(2) [OF Inr t] pe by simp
      show ?thesis
      proof (cases r)
        case (Inl err)
        then show ?thesis using Inr t pe l1 by (simp add: ParseArray_loop.psimps [OF dom])
      next
        case r: (Inr expr)
        have "length (snd (ParseArray_loop env (arr @ [expr]) lexer1)) \<le> length lexer1"
          using "2.hyps"(3) [OF Inr t _ _, of r lexer1 expr] pe r by simp
        then show ?thesis
          using Inr t pe r l1 by (simp add: ParseArray_loop.psimps [OF dom])
      qed
    qed
  qed
next
  case (3 env lexer)
  then show ?case by (simp add: ParseArray.psimps)
next
  case (4 env arr lexer)
  note dom = "4.hyps"(1)
  show ?case
  proof (cases "PeekNextToken lexer")
    case (Inl err)
    then show ?thesis by (simp add: ParseHash_loop.psimps [OF dom])
  next
    case (Inr tok)
    show ?thesis
    proof (cases "tok_typ tok = TokenEnd \<or> tok_typ tok = TokenRCurly")
      case True
      then show ?thesis
        using Inr by (auto simp: ParseHash_loop.psimps [OF dom] GetNextToken_snd_length)
    next
      case False
      then have t: "tok_typ tok \<noteq> TokenEnd" "tok_typ tok \<noteq> TokenRCurly" by auto
      obtain r lexer1 where pe: "ParseExpression env lexer = (r, lexer1)" by fastforce
      have l1: "length lexer1 \<le> length lexer"
        using "4.hyps"(2) [OF Inr t] pe by simp
      show ?thesis
      proof (cases r)
        case (Inl err)
        then show ?thesis using Inr t pe l1 by (simp add: ParseHash_loop.psimps [OF dom])
      next
        case r: (Inr expr)
        have "length (snd (ParseHash_loop env (arr @ [expr]) lexer1)) \<le> length lexer1"
          using "4.hyps"(3) [OF Inr t _ _, of r lexer1 expr] pe r by simp
        then show ?thesis
          using Inr t pe r l1 by (simp add: ParseHash_loop.psimps [OF dom])
      qed
    qed
  qed
next
  case (5 env lexer)
  then show ?case
    by (cases "ParseHash_loop env [] lexer") (auto simp: ParseHash.psimps split: sum.splits)
next
  case (6 env lexer)
  note dom = "6.hyps"(1)
  obtain r lexer1 where g: "GetNextToken lexer = (r, lexer1)" by fastforce
  have l1: "length lexer1 \<le> length lexer - (if lexer = [] then 0 else 1)"
    using g by (cases lexer) auto
  show ?case
  proof (cases r)
    case (Inl err)
    then show ?thesis using g l1 by (simp add: ParseExpression.psimps [OF dom])
  next
    case (Inr tok)
    have ne: "tok_typ tok \<noteq> TokenEnd \<Longrightarrow> lexer \<noteq> [] \<and> length lexer1 < length lexer"
      using g Inr by (cases lexer) (auto simp: EndTk_def)
    have sub: "length (snd (ParseExpression env lexer1)) \<le> length lexer - (if lexer = [] then 0 else 1)"
      if "tok_typ tok \<in> {TokenQuote, TokenBacktick, TokenTilde, TokenTildeAt}"
    proof -
      have "length (snd (ParseExpression env lexer1)) \<le> length lexer1 - (if lexer1 = [] then 0 else 1)"
        using that "6.hyps"(5-8) [OF g [symmetric] Inr] by auto
      then show ?thesis using l1 by simp
    qed
    show ?thesis
    proof (cases "tok_typ tok")
      case TokenLParen
      then show ?thesis
        using g Inr l1 "6.hyps"(2) [OF g [symmetric] Inr TokenLParen]
        by (simp add: ParseExpression.psimps [OF dom])
    next
      case TokenLSquare
      then show ?thesis
        using g Inr l1 "6.hyps"(3) [OF g [symmetric] Inr TokenLSquare]
        by (simp add: ParseExpression.psimps [OF dom])
    next
      case TokenLCurly
      then show ?thesis
        using g Inr l1 "6.hyps"(4) [OF g [symmetric] Inr TokenLCurly]
        by (simp add: ParseExpression.psimps [OF dom])
    next
      case TokenQuote
      then show ?thesis
        using g Inr sub
        by (cases "ParseExpression env lexer1") (auto simp: ParseExpression.psimps [OF dom] split: sum.splits)
    next
      case TokenBacktick
      then show ?thesis
        using g Inr sub
        by (cases "ParseExpression env lexer1") (auto simp: ParseExpression.psimps [OF dom] split: sum.splits)
    next
      case TokenTilde
      then show ?thesis
        using g Inr sub
        by (cases "ParseExpression env lexer1") (auto simp: ParseExpression.psimps [OF dom] split: sum.splits)
    next
      case TokenTildeAt
      then show ?thesis
        using g Inr sub
        by (cases "ParseExpression env lexer1") (auto simp: ParseExpression.psimps [OF dom] split: sum.splits)
    qed (use g Inr l1 in \<open>auto simp: ParseExpression.psimps [OF dom] split: prod.splits sum.splits option.splits if_splits\<close>)
  qed
qed

lemma ParseExpression_dom_shorter:
  assumes "ParseList_ParseArray_loop_ParseArray_ParseHash_loop_ParseHash_ParseExpression_dom
             (Inr (Inr (Inr (env, lexer))))"
    and "(r, y) = ParseExpression env lexer"
    and "PeekNextToken lexer = Inr b" and "tok_typ b \<noteq> TokenEnd"
  shows "length y < length lexer"
proof -
  have "lexer \<noteq> []" using assms(3,4) by (rule PeekNextToken_nonempty)
  moreover have "length y \<le> length lexer - (if lexer = [] then 0 else 1)"
    using parser_length_partial(6) [OF assms(1)] assms(2) [symmetric] by simp
  ultimately show ?thesis by (cases lexer) auto
qed

lemma GetNextToken_shorter_sym:
  "(Inr tok, l') = GetNextToken l \<Longrightarrow> tok_typ tok \<noteq> TokenEnd \<Longrightarrow> length l' < length l"
  by (cases l) (auto simp: EndTk_def)

lemma parser_total:
  "All ParseList_ParseArray_loop_ParseArray_ParseHash_loop_ParseHash_ParseExpression_dom"
proof (rule "ParseList_ParseArray_loop_ParseArray_ParseHash_loop_ParseHash_ParseExpression.termination"
    [where R = "measure (\<lambda>x. case x of
      Inl (Inl (env, l)) \<Rightarrow> 3 * length l + 1
    | Inl (Inr (Inl (env, arr, l))) \<Rightarrow> 3 * length l + 1
    | Inl (Inr (Inr (env, l))) \<Rightarrow> 3 * length l + 2
    | Inr (Inl (env, arr, l)) \<Rightarrow> 3 * length l + 1
    | Inr (Inr (Inl (env, l))) \<Rightarrow> 3 * length l + 2
    | Inr (Inr (Inr (env, l))) \<Rightarrow> 3 * length l)"], goal_cases)
  case (3 env lexer b x y ba bb)
  have "length y < length lexer"
    using ParseExpression_dom_shorter [OF 3(8) 3(4) 3(1) 3(2)] .
  moreover have "length (snd (GetNextToken y)) \<le> length y"
    by (rule GetNextToken_snd_length)
  ultimately show ?case by simp
next
  case (4 env lexer b x y ba bb)
  show ?case using ParseExpression_dom_shorter [OF 4(8) 4(4) 4(1) 4(2)] by simp
next
  case (6 env arr lexer b x y ba)
  show ?case using ParseExpression_dom_shorter [OF 6(6) 6(4) 6(1) 6(2)] by simp
next
  case (9 env arr lexer b x y ba)
  show ?case using ParseExpression_dom_shorter [OF 9(6) 9(4) 9(1) 9(2)] by simp
qed (auto dest: GetNextToken_shorter_sym)

termination ParseList
  by (rule parser_total)

lemmas parser_length = parser_length_partial [OF spec [OF parser_total]]

declare ParseList.simps [simp del] ParseArray_loop.simps [simp del] ParseArray.simps [simp del]
  ParseHash_loop.simps [simp del] ParseHash.simps [simp del] ParseExpression.simps [simp del]

section \<open>Round trip between sequences and lists\<close>

lemma IsList_MakeList: "IsList (MakeList xs)"
  by (induction xs) (simp_all add: Cons_sexp_def)

lemma ListToArray_loop_MakeList: "ListToArray_loop (MakeList xs) arr = Inr (arr @ xs)"
  by (induction xs arbitrary: arr) (simp_all add: Cons_sexp_def)

lemma ListToArray_loop_IsList:
  "IsList v \<Longrightarrow> \<exists>xs. ListToArray_loop v arr = Inr (arr @ xs) \<and> v = MakeList xs"
proof (induction v arr rule: ListToArray_loop.induct)
  case (1 arr)
  have "ListToArray_loop SexpNull arr = Inr (arr @ []) \<and> SexpNull = MakeList []"
    by simp
  then show ?case by blast
next
  case (2 h t arr)
  then obtain xs where "ListToArray_loop t (arr @ [h]) = Inr ((arr @ [h]) @ xs)" and "t = MakeList xs"
    by auto
  then have "ListToArray_loop (SexpPair h t) arr = Inr (arr @ (h # xs)) \<and> SexpPair h t = MakeList (h # xs)"
    by (simp add: Cons_sexp_def)
  then show ?case by blast
qed simp_all

lemma ListToArray_MakeList: "ListToArray (MakeList xs) = Inr xs"
  by (simp add: ListToArray_def IsList_MakeList ListToArray_loop_MakeList)

lemma IsList_iff_MakeList: "IsList v \<longleftrightarrow> (\<exists>xs. v = MakeList xs)"
  using ListToArray_loop_IsList [of v "[]"] IsList_MakeList by auto

text \<open>
  Claim C6. \<open>MakeList\<close> and \<open>ListToArray\<close> round-trip: for every sequence \<open>s\<close>,
  \<open>MakeList s\<close> is a proper list (\<open>IsList\<close> holds, and the empty sequence gives
  \<open>SexpNull\<close>) and \<open>ListToArray (MakeList s)\<close> succeeds with exactly \<open>s\<close>, in order.
  Conversely \<open>ListToArray\<close> fails with \<open>ErrNotAList\<close> on every value that is not a
  proper list, among them every dotted list; it never reaches the panic of its type
  assertion, and whatever it returns rebuilds its argument.
\<close>

theorem MakeList_ListToArray_roundtrip:
  "IsList (MakeList s)
   \<and> MakeList [] = (SexpNull :: 's Sexp)
   \<and> ListToArray (MakeList s) = Inr (s :: 's Sexp list)
   \<and> (\<not> IsList (v :: 's Sexp) \<longrightarrow> ListToArray v = Inl ErrNotAList)
   \<and> (\<not> IsList (t :: 's Sexp) \<longrightarrow> ListToArray (SexpPair h t) = Inl ErrNotAList)
   \<and> (IsList v \<longrightarrow> (\<exists>xs. ListToArray v = Inr xs \<and> MakeList xs = v))"
proof -
  have a: "IsList v \<longrightarrow> (\<exists>xs. ListToArray v = Inr xs \<and> MakeList xs = v)"
  proof
    assume "IsList v"
    then obtain xs where "v = MakeList xs" by (auto simp: IsList_iff_MakeList)
    then have "ListToArray v = Inr xs \<and> MakeList xs = v" by (simp add: ListToArray_MakeList)
    then show "\<exists>xs. ListToArray v = Inr xs \<and> MakeList xs = v" ..
  qed
  have b: "\<not> IsList v \<longrightarrow> ListToArray v = Inl ErrNotAList"
    by (simp add: ListToArray_def)
  have c: "\<not> IsList t \<longrightarrow> ListToArray (SexpPair h t) = Inl ErrNotAList"
    by (simp add: ListToArray_def)
  show ?thesis
    using a b c IsList_MakeList [of s] ListToArray_MakeList [of s] by simp
qed

theorem MakeList_ListToArray_roundtrip_witness:
  "\<not> IsList (SexpPair (SexpInt 1) (SexpInt 2) :: string Sexp)
   \<and> ListToArray (SexpPair (SexpInt 1) (SexpInt 2) :: string Sexp) = Inl ErrNotAList
   \<and> \<not> IsList (SexpInt 3 :: string Sexp)
   \<and> ListToArray (SexpPair (SexpInt 1) (SexpPair (SexpInt 2) (SexpInt 3)) :: string Sexp) = Inl ErrNotAList
   \<and> IsList (MakeList [SexpInt 1, SexpInt 2, SexpInt 3] :: string Sexp)
   \<and> ListToArray (MakeList [SexpInt 1, SexpInt 2, SexpInt 3] :: string Sexp)
       = Inr [SexpInt 1, SexpInt 2, SexpInt 3]"
  using MakeList_ListToArray_roundtrip
    [of "[SexpInt 1, SexpInt 2, SexpInt 3] :: string Sexp list"
        "SexpPair (SexpInt 1) (SexpInt 2)" "SexpPair (SexpInt 2) (SexpInt 3)" "SexpInt 1"]
  by simp

section \<open>Concatenation of lists\<close>

lemma MakeList_append: "MakeList (xs @ ys) = foldr SexpPair xs (MakeList ys)"
  by (induction xs) (simp_all add: Cons_sexp_def)

lemma ConcatList_Null:
  "ConcatList (SexpPair h SexpNull) b = (if IsList b then Inr (SexpPair h b) else Inl ErrNotAList)"
  by (simp add: ConcatList.simps Cons_sexp_def)

lemma ConcatList_Pair:
  "ConcatList (SexpPair h (SexpPair th tt)) b =
     (if IsList b
      then (case ConcatList (SexpPair th tt) b of
              Inl err \<Rightarrow> Inl err
            | Inr newtail \<Rightarrow> Inr (SexpPair h newtail))
      else Inl ErrNotAList)"
  by (cases "ConcatList (SexpPair th tt) b") (simp_all add: ConcatList.simps [of h] Cons_sexp_def)

lemma ConcatList_other:
  "t \<noteq> SexpNull \<Longrightarrow> \<forall>th tt. t \<noteq> SexpPair th tt \<Longrightarrow> ConcatList (SexpPair h t) b = Inl ErrNotAList"
  by (cases t) (simp_all add: ConcatList.simps)

lemma ConcatList_not_list_b: "\<not> IsList b \<Longrightarrow> ConcatList (SexpPair h t) b = Inl ErrNotAList"
  by (simp add: ConcatList.simps)

lemma ConcatList_proper:
  "IsList b \<Longrightarrow> ConcatList (SexpPair x (MakeList xs)) b = Inr (foldr SexpPair (x # xs) b)"
proof (induction xs arbitrary: x)
  case Nil
  then show ?case by (simp add: ConcatList_Null)
next
  case (Cons y ys)
  then show ?case by (simp add: ConcatList_Pair Cons_sexp_def)
qed

lemma ConcatList_improper_a: "\<not> IsList t \<Longrightarrow> ConcatList (SexpPair h t) b = Inl ErrNotAList"
proof (induction t arbitrary: h)
  case (SexpPair t1 t2)
  then show ?case by (simp add: ConcatList_Pair)
qed (simp_all add: ConcatList_other)

lemma funpow_tail_foldr: "(tail ^^ length xs) (foldr SexpPair xs b) = b"
  by (induction xs) (simp_all add: funpow_swap1)

lemma ListToArray_Inr: "ListToArray v = Inr xs \<Longrightarrow> v = MakeList xs"
proof -
  assume a: "ListToArray v = Inr xs"
  then have "IsList v" by (auto simp: ListToArray_def split: if_splits)
  then obtain ys where "v = MakeList ys" by (auto simp: IsList_iff_MakeList)
  then show ?thesis using a by (simp add: ListToArray_MakeList)
qed

text \<open>
  Claim C8. For a non-empty proper list \<open>a\<close> and a proper list \<open>b\<close>, \<open>ConcatList a b\<close>
  returns a proper list whose elements are those of \<open>a\<close> followed by those of \<open>b\<close>, so
  its length is the sum of the two lengths; after \<open>length a\<close> tails the result is \<open>b\<close>
  itself; and \<open>a\<close> still lists its original elements (the utilities build new pairs and
  assign to none, and the values of the model cannot change). It fails with \<open>ErrNotAList\<close>
  if \<open>b\<close> is not a list, or if the spine of \<open>a\<close> reaches a tail that is neither \<open>Null\<close>
  nor a \<open>Pair\<close>.
\<close>

theorem ConcatList_appends:
  fixes h t b :: "'s Sexp"
  shows
  "(ListToArray (SexpPair h t) = Inr as \<and> ListToArray b = Inr bs \<longrightarrow>
      (\<exists>r. ConcatList (SexpPair h t) b = Inr r
           \<and> IsList r
           \<and> ListToArray r = Inr (as @ bs)
           \<and> length (as @ bs) = length as + length bs
           \<and> (tail ^^ length as) r = b
           \<and> ListToArray (SexpPair h t) = Inr as))
   \<and> (\<not> IsList b \<longrightarrow> ConcatList (SexpPair h t) b = Inl ErrNotAList)
   \<and> (\<not> IsList (SexpPair h t) \<longrightarrow> ConcatList (SexpPair h t) b = Inl ErrNotAList)"
proof -
  have ok: "\<exists>r. ConcatList (SexpPair h t) b = Inr r
           \<and> IsList r
           \<and> ListToArray r = Inr (as @ bs)
           \<and> length (as @ bs) = length as + length bs
           \<and> (tail ^^ length as) r = b
           \<and> ListToArray (SexpPair h t) = Inr as"
    if a: "ListToArray (SexpPair h t) = Inr as" and b: "ListToArray b = Inr bs"
  proof -
    have am: "SexpPair h t = MakeList as" using a by (rule ListToArray_Inr)
    then obtain as' where as: "as = h # as'" and t: "t = MakeList as'"
      by (cases as) (simp_all add: Cons_sexp_def)
    have bm: "b = MakeList bs" using b by (rule ListToArray_Inr)
    then have lb: "IsList b" by (simp add: IsList_MakeList)
    let ?r = "foldr SexpPair as b"
    have c: "ConcatList (SexpPair h t) b = Inr ?r"
      using ConcatList_proper [OF lb, of h as'] as t by simp
    have r: "?r = MakeList (as @ bs)" by (simp add: MakeList_append bm)
    have "IsList ?r" and "ListToArray ?r = Inr (as @ bs)"
      unfolding r by (rule IsList_MakeList, rule ListToArray_MakeList)
    moreover have "(tail ^^ length as) ?r = b" by (rule funpow_tail_foldr)
    ultimately show ?thesis using c a by simp
  qed
  have "\<not> IsList b \<longrightarrow> ConcatList (SexpPair h t) b = Inl ErrNotAList"
    by (simp add: ConcatList_not_list_b)
  moreover have "\<not> IsList (SexpPair h t) \<longrightarrow> ConcatList (SexpPair h t) b = Inl ErrNotAList"
    by (simp add: ConcatList_improper_a)
  ultimately show ?thesis using ok by blast
qed

theorem ConcatList_appends_witness:
  "(\<exists>r :: string Sexp.
      ConcatList (SexpPair (SexpInt 1) (SexpPair (SexpInt 2) SexpNull)) (SexpPair (SexpInt 3) SexpNull) = Inr r
      \<and> ListToArray r = Inr [SexpInt 1, SexpInt 2, SexpInt 3]
      \<and> (tail ^^ 2) r = SexpPair (SexpInt 3) SexpNull)
   \<and> ConcatList (SexpPair (SexpInt 1) SexpNull) (SexpInt 3 :: string Sexp) = Inl ErrNotAList
   \<and> ConcatList (SexpPair (SexpInt 1) (SexpInt 2)) (SexpNull :: string Sexp) = Inl ErrNotAList"
proof -
  have a: "ListToArray (SexpPair (SexpInt 1) (SexpPair (SexpInt 2) SexpNull) :: string Sexp)
             = Inr [SexpInt 1, SexpInt 2]"
    by (simp add: ListToArray_def)
  have b: "ListToArray (SexpPair (SexpInt 3) SexpNull :: string Sexp) = Inr [SexpInt 3]"
    by (simp add: ListToArray_def)
  have c: "\<not> IsList (SexpInt 3 :: string Sexp)" by simp
  have d: "\<not> IsList (SexpPair (SexpInt 1) (SexpInt 2) :: string Sexp)" by simp
  show ?thesis
    using ConcatList_appends [of "SexpInt 1" "SexpPair (SexpInt 2) SexpNull" "[SexpInt 1, SexpInt 2]"
            "SexpPair (SexpInt 3) SexpNull :: string Sexp" "[SexpInt 3]"]
      ConcatList_appends [of "SexpInt 1" "SexpNull" _ "SexpInt 3 :: string Sexp"]
      ConcatList_appends [of "SexpInt 1" "SexpInt 2" _ "SexpNull :: string Sexp"]
      a b c d
    by (auto simp: numeral_2_eq_2)
qed

section \<open>Mapping over a list\<close>

lemma MapList_not_list:
  "v \<noteq> SexpNull \<Longrightarrow> (\<forall>h t. v \<noteq> SexpPair h t) \<Longrightarrow> MapList Apply env fn v = (Inl ErrNotAList, env)"
  by (cases v) simp_all

lemma MapList_stops:
  "MapList Apply env fn (MakeList xs) = (Inr v, env1) \<Longrightarrow> Apply env1 fn [x] = (Inl err, env2)
     \<Longrightarrow> MapList Apply env fn (MakeList (xs @ x # ys)) = (Inl err, env2)"
proof (induction xs arbitrary: env v)
  case Nil
  then show ?case by (simp add: Cons_sexp_def)
next
  case (Cons a xs)
  then show ?case
    by (auto simp: Cons_sexp_def split: prod.splits sum.splits)
qed

lemma MapList_recording_ok:
  "\<forall>x \<in> set xs. f [x] = Inr (g x) \<Longrightarrow>
     MapList (recording f) log fn (MakeList xs)
       = (Inr (MakeList (map g xs)), log @ map (\<lambda>x. [x]) xs)"
proof (induction xs arbitrary: log)
  case Nil
  then show ?case by simp
next
  case (Cons a xs)
  then show ?case by (auto simp: Cons_sexp_def recording_def)
qed

lemma MapList_recording_fail:
  assumes "\<forall>x \<in> set xs. f [x] = Inr (g x)" and "f [x] = Inl err"
  shows "MapList (recording f) log fn (MakeList (xs @ x # ys)) = (Inl err, log @ map (\<lambda>x. [x]) (xs @ [x]))"
proof -
  have "MapList (recording f) log fn (MakeList xs)
       = (Inr (MakeList (map g xs)), log @ map (\<lambda>x. [x]) xs)"
    using assms(1) by (rule MapList_recording_ok)
  moreover have "recording f (log @ map (\<lambda>x. [x]) xs) fn [x] = (Inl err, log @ map (\<lambda>x. [x]) (xs @ [x]))"
    using assms(2) by (simp add: recording_def)
  ultimately show ?thesis by (rule MapList_stops)
qed

lemma MapList_improper:
  "\<not> IsList v \<Longrightarrow> \<exists>e. fst (MapList Apply env fn v) = Inl e"
proof (induction Apply env fn v rule: MapList.induct)
  case (2 Apply env fn h t)
  then show ?case by (auto split: prod.splits sum.splits)
qed simp_all


text \<open>
  Claim C7. \<open>MapList\<close> applies the function strictly left to right, keeping order and
  list structure; when the application to an element fails, \<open>MapList\<close> returns exactly
  that failure and the interpreter as that call left it, whatever follows the element
  (nothing after it is applied); and it fails with \<open>ErrNotAList\<close>, applying nothing, on
  every value that is neither \<open>Null\<close> nor a \<open>Pair\<close>. With \<open>recording f\<close>, which logs
  every call, the log is the elements up to and including the first failing one, in order.
\<close>

theorem MapList_left_to_right:
  fixes v w x :: "'s Sexp" and f :: "'s Sexp list \<Rightarrow> Error + 's Sexp"
  shows
  "(v \<noteq> SexpNull \<and> (\<forall>h t. v \<noteq> SexpPair h t) \<longrightarrow> MapList Apply env fn v = (Inl ErrNotAList, env))
   \<and> (MapList Apply env fn (MakeList xs) = (Inr w, env') \<and> Apply env' fn [x] = (Inl err, env'') \<longrightarrow>
        MapList Apply env fn (MakeList (xs @ x # ys)) = (Inl err, env''))
   \<and> ((\<forall>z \<in> set xs. f [z] = Inr (g z)) \<longrightarrow>
        MapList (recording f) log fn' (MakeList xs)
          = (Inr (MakeList (map g xs)), log @ map (\<lambda>z. [z]) xs))
   \<and> ((\<forall>z \<in> set xs. f [z] = Inr (g z)) \<and> f [x] = Inl err' \<longrightarrow>
        MapList (recording f) log fn' (MakeList (xs @ x # ys))
          = (Inl err', log @ map (\<lambda>z. [z]) (xs @ [x])))"
proof -
  have ok: "MapList (recording f) log fn' (MakeList xs)
          = (Inr (MakeList (map g xs)), log @ map (\<lambda>z. [z]) xs)"
    if h: "\<forall>z \<in> set xs. f [z] = Inr (g z)"
    using h by (rule MapList_recording_ok)
  have "MapList (recording f) log fn' (MakeList (xs @ x # ys))
          = (Inl err', log @ map (\<lambda>z. [z]) (xs @ [x]))"
    if h: "\<forall>z \<in> set xs. f [z] = Inr (g z)" and e: "f [x] = Inl err'"
    using h e by (rule MapList_recording_fail)
  then show ?thesis
    using ok MapList_not_list [of v Apply env fn] MapList_stops [of Apply env fn xs w env' x err env'' ys]
    by blast
qed


theorem MapList_left_to_right_witness:
  "MapList (recording (\<lambda>args. if args = [SexpInt 3] then Inl (ErrorString ''three'') else Inr (SexpBool True)))
      [] () (MakeList [SexpInt 1, SexpInt 2, SexpInt 3, SexpInt 4 :: string Sexp])
     = (Inl (ErrorString ''three''), [[SexpInt 1], [SexpInt 2], [SexpInt 3]])
   \<and> MapList (recording (\<lambda>args. if args = [SexpInt 3] then Inl (ErrorString ''three'') else Inr (SexpBool True)))
      [] () (MakeList [SexpInt 1, SexpInt 2 :: string Sexp])
     = (Inr (MakeList [SexpBool True, SexpBool True]), [[SexpInt 1], [SexpInt 2]])
   \<and> MapList (recording (\<lambda>args. if args = [SexpInt 3] then Inl (ErrorString ''three'') else Inr (SexpBool True)))
      [] () (SexpInt 5 :: string Sexp)
     = (Inl ErrNotAList, [])"
proof -
  let ?f = "\<lambda>args :: string Sexp list. if args = [SexpInt 3] then Inl (ErrorString ''three'') else Inr (SexpBool True)"
  have h1: "\<forall>z \<in> set [SexpInt 1, SexpInt 2 :: string Sexp]. ?f [z] = Inr (SexpBool True)" by simp
  have h2: "?f [SexpInt 3] = Inl (ErrorString ''three'')" by simp
  have h3: "(SexpInt 5 :: string Sexp) \<noteq> SexpNull \<and> (\<forall>h t. (SexpInt 5 :: string Sexp) \<noteq> SexpPair h t)" by simp
  have h4: "recording ?f [[SexpInt 1], [SexpInt 2]] () [SexpInt 3]
              = (Inl (ErrorString ''three''), [[SexpInt 1], [SexpInt 2], [SexpInt 3]])"
    by (simp add: recording_def)
  note inst = MapList_left_to_right [where v = "SexpInt 5" and Apply = "recording ?f" and env = "[]"
      and fn = "()" and fn' = "()" and log = "[]" and f = ?f and g = "\<lambda>z. SexpBool True"
      and xs = "[SexpInt 1, SexpInt 2]" and x = "SexpInt 3" and ys = "[SexpInt 4]"
      and err' = "ErrorString ''three''" and err = "ErrorString ''three''"
      and w = "MakeList [SexpBool True, SexpBool True]"
      and env' = "[[SexpInt 1], [SexpInt 2]]" and env'' = "[[SexpInt 1], [SexpInt 2], [SexpInt 3]]"]
  show ?thesis using inst h1 h2 h3 h4 by simp
qed



section \<open>Integer tokens\<close>

lemmas literal_defs = literal_value_def radix_digit_def digit_of_char_def

lemma lower_eq: "lower n = n + (if odd (n div 32) then 0 else 32)"
proof -
  have "n OR 32 = set_bit 5 n" by (simp add: set_bit_eq_or)
  then show ?thesis by (simp add: lower_def set_bit_eq bit_iff_odd)
qed

lemma lower_upper: "65 \<le> n \<Longrightarrow> n \<le> 90 \<Longrightarrow> lower n = n + 32"
proof -
  assume "65 \<le> n" "n \<le> 90"
  then have "n div 32 = 2" by (intro div_nat_eqI) simp_all
  then show ?thesis by (simp add: lower_eq)
qed

lemma lower_lower: "97 \<le> n \<Longrightarrow> n \<le> 122 \<Longrightarrow> lower n = n"
proof -
  assume "97 \<le> n" "n \<le> 122"
  then have "n div 32 = 3" by (intro div_nat_eqI) simp_all
  then show ?thesis by (simp add: lower_eq)
qed

lemma lower_letter: "97 \<le> lower n \<and> lower n \<le> 122 \<longleftrightarrow> (65 \<le> n \<and> n \<le> 90) \<or> (97 \<le> n \<and> n \<le> 122)"
proof
  assume "97 \<le> lower n \<and> lower n \<le> 122"
  then show "(65 \<le> n \<and> n \<le> 90) \<or> (97 \<le> n \<and> n \<le> 122)"
    by (cases "odd (n div 32)") (simp_all add: lower_eq)
next
  assume "(65 \<le> n \<and> n \<le> 90) \<or> (97 \<le> n \<and> n \<le> 122)"
  then show "97 \<le> lower n \<and> lower n \<le> 122"
    by (auto simp: lower_upper lower_lower)
qed

lemma digitVal_eq: "digitVal c = digit_of_char c"
  unfolding digitVal_def digit_of_char_def Let_def lower_letter
  by (auto simp: lower_upper lower_lower)


lemma digits_value_mono: "0 < b \<Longrightarrow> n \<le> digits_value b n s"
proof (induction s arbitrary: n)
  case Nil
  then show ?case by simp
next
  case (Cons c s)
  have "n \<le> n * b" using Cons.prems by simp
  also have "\<dots> \<le> n * b + the (digit_of_char c)" by simp
  also have "\<dots> \<le> digits_value b (n * b + the (digit_of_char c)) s"
    using Cons.IH [OF Cons.prems] .
  finally show ?case by simp
qed

lemma ParseUint_step:
  fixes M :: nat
  assumes "2 \<le> b" "d < b" "b < M" "n \<le> maxVal" "maxVal < M"
  shows "(n \<ge> (M - 1) div b + 1 \<or> (n * b + d) mod M < n * b \<or> (n * b + d) mod M > maxVal)
           \<longleftrightarrow> n * b + d > maxVal"
proof (cases "n \<ge> (M - 1) div b + 1")
  case True
  have "M - 1 < b + (M - 1) div b * b"
    using assms(1) by (intro dividend_less_div_times) simp
  also have "\<dots> = ((M - 1) div b + 1) * b" by simp
  also have "\<dots> \<le> n * b" using True by (intro mult_le_mono1)
  finally have "M \<le> n * b" by simp
  then show ?thesis using True assms(5) by simp
next
  case False
  then have "n \<le> (M - 1) div b" by simp
  then have "n * b \<le> (M - 1) div b * b" by (intro mult_le_mono1)
  also have "\<dots> \<le> M - 1" by (rule div_times_less_eq_dividend)
  finally have nb: "n * b < M" using assms(3) by simp
  show ?thesis
  proof (cases "n * b + d < M")
    case True
    then show ?thesis using False by simp
  next
    case ge: False
    have "n * b + d < 2 * M" using nb assms(2,3) by simp
    then have "(n * b + d) mod M = n * b + d - M"
      using ge by (simp add: mod_if)
    then have "(n * b + d) mod M < n * b" using ge assms(2,3) by simp
    then show ?thesis using ge assms(5) by simp
  qed
qed

lemma ParseUint_loop_valid:
  assumes "2 \<le> b" "b \<le> 36" "maxVal \<le> maxUint64"
  shows "list_all (radix_digit b) s \<Longrightarrow> n \<le> maxVal \<Longrightarrow>
     ParseUint_loop b (maxUint64 div b + 1) maxVal n s =
       (if digits_value b n s \<le> maxVal then (digits_value b n s, None) else (maxVal, Some ErrRange))"
proof (induction s arbitrary: n)
  case Nil
  then show ?case by simp
next
  case (Cons c s)
  from Cons.prems(1) have c: "radix_digit b c" and rest: "list_all (radix_digit b) s"
    by simp_all
  from c obtain d where d: "digit_of_char c = Some d" "d < b"
    by (auto simp: radix_digit_def split: option.splits)
  have step: "(n \<ge> maxUint64 div b + 1 \<or> (n * b + d) mod 2 ^ 64 < n * b \<or> (n * b + d) mod 2 ^ 64 > maxVal)
           \<longleftrightarrow> n * b + d > maxVal"
    using ParseUint_step [of b d "2 ^ 64" n maxVal] assms d(2) Cons.prems(2)
    by (simp add: maxUint64_def)
  show ?case
  proof (cases "n * b + d > maxVal")
    case True
    have "n * b + d \<le> digits_value b (n * b + d) s"
      using assms(1) by (intro digits_value_mono) simp
    then have "\<not> digits_value b n (c # s) \<le> maxVal" using True d by simp
    moreover have "ParseUint_loop b (maxUint64 div b + 1) maxVal n (c # s) = (maxVal, Some ErrRange)"
      using True step d by (auto simp: digitVal_eq Let_def)
    ultimately show ?thesis by simp
  next
    case False
    then have le: "n * b + d \<le> maxVal" by simp
    then have "n * b + d < 2 ^ 64" using assms(3) by (simp add: maxUint64_def)
    then have m: "(n * b + d) mod 2 ^ 64 = n * b + d" by simp
    have "ParseUint_loop b (maxUint64 div b + 1) maxVal n (c # s)
            = ParseUint_loop b (maxUint64 div b + 1) maxVal (n * b + d) s"
      using False step d m by (auto simp: digitVal_eq Let_def)
    then show ?thesis using Cons.IH [OF rest le] d by simp
  qed
qed

lemma ParseUint_loop_invalid:
  assumes "2 \<le> b" "b \<le> 36" "maxVal \<le> maxUint64"
  shows "\<not> list_all (radix_digit b) s \<Longrightarrow> n \<le> maxVal \<Longrightarrow>
     ParseUint_loop b (maxUint64 div b + 1) maxVal n s = (0, Some ErrSyntax)
     \<or> ParseUint_loop b (maxUint64 div b + 1) maxVal n s = (maxVal, Some ErrRange)"
proof (induction s arbitrary: n)
  case Nil
  then show ?case by simp
next
  case (Cons c s)
  show ?case
  proof (cases "radix_digit b c")
    case False
    then show ?thesis
      by (auto simp: radix_digit_def digitVal_eq split: option.splits)
  next
    case True
    then obtain d where d: "digit_of_char c = Some d" "d < b"
      by (auto simp: radix_digit_def split: option.splits)
    have rest: "\<not> list_all (radix_digit b) s" using Cons.prems(1) True by simp
    have step: "(n \<ge> maxUint64 div b + 1 \<or> (n * b + d) mod 2 ^ 64 < n * b \<or> (n * b + d) mod 2 ^ 64 > maxVal)
           \<longleftrightarrow> n * b + d > maxVal"
      using ParseUint_step [of b d "2 ^ 64" n maxVal] assms d(2) Cons.prems(2)
      by (simp add: maxUint64_def)
    show ?thesis
    proof (cases "n * b + d > maxVal")
      case True
      then show ?thesis using step d by (auto simp: digitVal_eq Let_def)
    next
      case False
      then have le: "n * b + d \<le> maxVal" by simp
      then have "n * b + d < 2 ^ 64" using assms(3) by (simp add: maxUint64_def)
      then have m: "(n * b + d) mod 2 ^ 64 = n * b + d" by simp
      have "ParseUint_loop b (maxUint64 div b + 1) maxVal n (c # s)
            = ParseUint_loop b (maxUint64 div b + 1) maxVal (n * b + d) s"
        using False step d m by (auto simp: digitVal_eq Let_def)
      then show ?thesis using Cons.IH [OF rest le] by simp
    qed
  qed
qed


lemma maxVal_le_maxUint64: "w \<le> 64 \<Longrightarrow> (2::nat) ^ w - 1 \<le> maxUint64"
proof -
  assume "w \<le> 64"
  then have "(2::nat) ^ w \<le> 2 ^ 64" by (intro power_increasing) simp_all
  then show ?thesis by (simp add: maxUint64_def)
qed

lemma ParseUint_valid:
  assumes "2 \<le> b" "b \<le> 36" "1 \<le> w" "w \<le> 64" "s \<noteq> []" "list_all (radix_digit b) s"
  shows "ParseUint s b w =
     (if digits_value b 0 s \<le> 2 ^ w - 1 then (digits_value b 0 s, None) else (2 ^ w - 1, Some ErrRange))"
  using assms ParseUint_loop_valid [OF assms(1,2) maxVal_le_maxUint64 [OF assms(4)] assms(6), of 0]
  by (simp add: ParseUint_def Let_def)

lemma ParseUint_invalid:
  assumes "2 \<le> b" "b \<le> 36" "1 \<le> w" "w \<le> 64" "s = [] \<or> \<not> list_all (radix_digit b) s"
  shows "ParseUint s b w = (0, Some ErrSyntax) \<or> ParseUint s b w = (2 ^ w - 1, Some ErrRange)"
proof (cases "s = []")
  case True
  then show ?thesis by (simp add: ParseUint_def)
next
  case False
  then have "\<not> list_all (radix_digit b) s" using assms(5) by simp
  then show ?thesis
    using assms(1-4) False
      ParseUint_loop_invalid [OF assms(1,2) maxVal_le_maxUint64 [OF assms(4)], of s 0]
    by (simp add: ParseUint_def Let_def)
qed

lemma literal_value_Cons:
  "literal_value b (c # cs) =
     (let ds = (if c = CHR ''+'' \<or> c = CHR ''-'' then cs else c # cs) in
      if ds \<noteq> [] \<and> list_all (radix_digit b) ds
      then Some (if c = CHR ''-'' then - int (digits_value b 0 ds) else int (digits_value b 0 ds))
      else None)"
  by (simp add: literal_value_def Let_def)

lemma ParseInt_Cons:
  "ParseInt (c # cs) b w =
     (case ParseUint (if c = CHR ''+'' \<or> c = CHR ''-'' then cs else c # cs) b w of
        (un, err) \<Rightarrow>
          if err \<noteq> None \<and> err \<noteq> Some ErrRange then (0, err)
          else if c \<noteq> CHR ''-'' \<and> un \<ge> 2 ^ ((if w = 0 then IntSize else w) - 1)
               then (int (2 ^ ((if w = 0 then IntSize else w) - 1)) - 1, Some ErrRange)
          else if c = CHR ''-'' \<and> un > 2 ^ ((if w = 0 then IntSize else w) - 1)
               then (- int (2 ^ ((if w = 0 then IntSize else w) - 1)), Some ErrRange)
          else (if c = CHR ''-'' then - int un else int un, None))"
  by (auto simp: ParseInt_def Let_def split: prod.splits)

lemma pow_half: "2 \<le> w \<Longrightarrow> (2::nat) ^ w = 2 * 2 ^ (w - 1) \<and> (2::nat) \<le> 2 ^ (w - 1)"
proof -
  assume w: "2 \<le> w"
  then obtain k where k: "w = Suc (Suc k)" by (metis Suc_leD add_2_eq_Suc le_Suc_ex)
  have "(1::nat) \<le> 2 ^ k" by simp
  then show ?thesis unfolding k by simp
qed

lemma ParseInt_invalid:
  assumes "2 \<le> b" "b \<le> 36" "2 \<le> w" "w \<le> 64" "literal_value b s = None"
  shows "snd (ParseInt s b w) = Some ErrSyntax \<or> snd (ParseInt s b w) = Some ErrRange"
proof (cases s)
  case Nil
  then show ?thesis by (simp add: ParseInt_def)
next
  case (Cons c cs)
  let ?ds = "if c = CHR ''+'' \<or> c = CHR ''-'' then cs else c # cs"
  define P :: nat where "P = 2 ^ (w - 1)"
  have P: "(2::nat) ^ w = 2 * P" "2 \<le> P" using pow_half [OF assms(3)] by (simp_all add: P_def)
  have w: "(if w = 0 then IntSize else w) - 1 = w - 1" using assms(3) by simp
  have "?ds = [] \<or> \<not> list_all (radix_digit b) ?ds"
    using assms(5) unfolding Cons literal_value_Cons Let_def by (auto split: if_splits)
  then have "ParseUint ?ds b w = (0, Some ErrSyntax) \<or> ParseUint ?ds b w = (2 ^ w - 1, Some ErrRange)"
    using assms(1-4) by (intro ParseUint_invalid) simp_all
  then show ?thesis
  proof
    assume "ParseUint ?ds b w = (0, Some ErrSyntax)"
    then show ?thesis unfolding Cons ParseInt_Cons by simp
  next
    assume "ParseUint ?ds b w = (2 ^ w - 1, Some ErrRange)"
    then have u: "ParseUint ?ds b w = (2 * P - 1, Some ErrRange)" by (simp only: P)
    show ?thesis
      unfolding Cons ParseInt_Cons w P_def [symmetric] u using P(2) by simp
  qed
qed

lemma ParseInt_valid:
  assumes "2 \<le> b" "b \<le> 36" "2 \<le> w" "w \<le> 64" "literal_value b s = Some v"
  shows "ParseInt s b w =
     (if - (2 ^ (w - 1)) \<le> v \<and> v < 2 ^ (w - 1) then (v, None)
      else if v < 0 then (- (2 ^ (w - 1)), Some ErrRange)
      else (2 ^ (w - 1) - 1, Some ErrRange))"
proof (cases s)
  case Nil
  then show ?thesis using assms(5) by (simp add: literal_value_def)
next
  case (Cons c cs)
  let ?ds = "if c = CHR ''+'' \<or> c = CHR ''-'' then cs else c # cs"
  define U where "U = digits_value b 0 ?ds"
  define P :: nat where "P = 2 ^ (w - 1)"
  have ds: "?ds \<noteq> []" "list_all (radix_digit b) ?ds"
    and v: "v = (if c = CHR ''-'' then - int U else int U)"
    using assms(5) unfolding Cons literal_value_Cons Let_def U_def by (auto split: if_splits)
  have P: "(2::nat) ^ w = 2 * P" "2 \<le> P" using pow_half [OF assms(3)] by (simp_all add: P_def)
  have w: "(if w = 0 then IntSize else w) - 1 = w - 1" using assms(3) by simp
  have "ParseUint ?ds b w = (if U \<le> 2 ^ w - 1 then (U, None) else (2 ^ w - 1, Some ErrRange))"
    unfolding U_def using assms(1-4) ds by (intro ParseUint_valid) simp_all
  then have pu: "ParseUint ?ds b w = (if U \<le> 2 * P - 1 then (U, None) else (2 * P - 1, Some ErrRange))"
    by (simp only: P)
  have ip: "(2::int) ^ (w - 1) = int P" by (simp add: P_def)
  show ?thesis
    unfolding Cons ParseInt_Cons w P_def [symmetric] pu ip v using P(2)
    by (cases "c = CHR ''-''") auto
qed


lemma ParseExpression_integer_token:
  assumes "(ty, b) \<in> {(TokenDecimal, 10), (TokenHex, 16), (TokenOct, 8), (TokenBinary, 2)}"
  shows "ParseExpression env (Inr (Token ty s) # lexer) =
     (case ParseInt s b (SexpIntSize env) of
        (i, Some err) \<Rightarrow> (Inl (NumError err), lexer)
      | (i, None) \<Rightarrow> (Inr (SexpInt (signed_take_bit (SexpIntSize env - 1) i)), lexer))"
proof -
  have "ty = TokenDecimal \<and> b = 10 \<or> ty = TokenHex \<and> b = 16
        \<or> ty = TokenOct \<and> b = 8 \<or> ty = TokenBinary \<and> b = 2"
    using assms by auto
  then show ?thesis
    by (elim disjE conjE) (simp_all add: ParseExpression.simps del: One_nat_def)
qed

text \<open>
  Claim C9. Each of the four integer tokens (decimal, hex, octal, binary) reads its text
  in radix 10, 16, 8, 2 into the one signed integer width \<open>SexpIntSize\<close>: a literal of
  the radix whose value fits the width gives that \<open>SexpInt\<close>; one whose value does not
  fit fails with the range error of the conversion; and a text that is not a literal of
  the radix (an invalid digit, or no digit) fails with a conversion error as well. The
  text is the digits, with an optional sign and without a radix prefix.
\<close>

theorem integer_tokens_parse_in_radix:
  assumes "2 \<le> SexpIntSize env" and "SexpIntSize env \<le> 64"
    and "(ty, b) \<in> {(TokenDecimal, 10), (TokenHex, 16), (TokenOct, 8), (TokenBinary, 2)}"
  shows "(literal_value b s = Some v \<and> - (2 ^ (SexpIntSize env - 1)) \<le> v \<and> v < 2 ^ (SexpIntSize env - 1) \<longrightarrow>
            ParseExpression env (Inr (Token ty s) # lexer) = (Inr (SexpInt v), lexer))
       \<and> (literal_value b s = Some v \<and> \<not> (- (2 ^ (SexpIntSize env - 1)) \<le> v \<and> v < 2 ^ (SexpIntSize env - 1)) \<longrightarrow>
            ParseExpression env (Inr (Token ty s) # lexer) = (Inl (NumError ErrRange), lexer))
       \<and> (literal_value b s = None \<longrightarrow>
            ParseExpression env (Inr (Token ty s) # lexer) = (Inl (NumError ErrSyntax), lexer)
            \<or> ParseExpression env (Inr (Token ty s) # lexer) = (Inl (NumError ErrRange), lexer))"
proof -
  let ?w = "SexpIntSize env"
  have b: "2 \<le> b" "b \<le> 36" using assms(3) by auto
  note pe = ParseExpression_integer_token [OF assms(3), of env s lexer]
  have ok: "ParseExpression env (Inr (Token ty s) # lexer) = (Inr (SexpInt v), lexer)"
    if "literal_value b s = Some v" and r: "- (2 ^ (?w - 1)) \<le> v" "v < 2 ^ (?w - 1)"
  proof -
    have "ParseInt s b ?w = (v, None)"
      using ParseInt_valid [OF b assms(1,2) that(1)] r by simp
    moreover have "signed_take_bit (?w - 1) v = v"
      using r by (rule signed_take_bit_int_eq_self)
    ultimately show ?thesis using pe by simp
  qed
  have range: "ParseExpression env (Inr (Token ty s) # lexer) = (Inl (NumError ErrRange), lexer)"
    if "literal_value b s = Some v" and r: "\<not> (- (2 ^ (?w - 1)) \<le> v \<and> v < 2 ^ (?w - 1))"
  proof -
    have "snd (ParseInt s b ?w) = Some ErrRange"
      using ParseInt_valid [OF b assms(1,2) that(1)] r by auto
    then show ?thesis using pe by (cases "ParseInt s b ?w") simp
  qed
  have bad: "ParseExpression env (Inr (Token ty s) # lexer) = (Inl (NumError ErrSyntax), lexer)
            \<or> ParseExpression env (Inr (Token ty s) # lexer) = (Inl (NumError ErrRange), lexer)"
    if "literal_value b s = None"
  proof -
    have "snd (ParseInt s b ?w) = Some ErrSyntax \<or> snd (ParseInt s b ?w) = Some ErrRange"
      using ParseInt_invalid [OF b assms(1,2) that] .
    then show ?thesis using pe by (cases "ParseInt s b ?w") auto
  qed
  show ?thesis using ok range bad by blast
qed


theorem integer_tokens_parse_in_radix_witness:
  "ParseExpression env0 [Inr (Token TokenHex ''1F'')] = (Inr (SexpInt 31), [])
   \<and> ParseExpression env0 [Inr (Token TokenOct ''17'')] = (Inr (SexpInt 15), [])
   \<and> ParseExpression env0 [Inr (Token TokenBinary ''101'')] = (Inr (SexpInt 5), [])
   \<and> ParseExpression env0 [Inr (Token TokenDecimal ''-42'')] = (Inr (SexpInt (- 42)), [])
   \<and> ParseExpression env0 [Inr (Token TokenDecimal ''9223372036854775808'')] = (Inl (NumError ErrRange), [])
   \<and> (ParseExpression env0 [Inr (Token TokenBinary ''102'')] = (Inl (NumError ErrSyntax), [])
       \<or> ParseExpression env0 [Inr (Token TokenBinary ''102'')] = (Inl (NumError ErrRange), []))"
proof -
  have w: "2 \<le> SexpIntSize env0" "SexpIntSize env0 \<le> 64" by (simp_all add: env0_def)
  have hex: "literal_value 16 ''1F'' = Some 31" by (simp add: literal_defs)
  have oct: "literal_value 8 ''17'' = Some 15" by (simp add: literal_defs)
  have bin: "literal_value 2 ''101'' = Some 5" by (simp add: literal_defs)
  have dec: "literal_value 10 ''-42'' = Some (- 42)" by (simp add: literal_defs)
  have big: "literal_value 10 ''9223372036854775808'' = Some 9223372036854775808" by (simp add: literal_defs)
  have bad: "literal_value 2 ''102'' = None" by (simp add: literal_defs)
  have s: "SexpIntSize env0 - 1 = 63" by (simp add: env0_def)
  show ?thesis
    using integer_tokens_parse_in_radix [OF w, of TokenHex 16 "''1F''" 31 "[]"]
      integer_tokens_parse_in_radix [OF w, of TokenOct 8 "''17''" 15 "[]"]
      integer_tokens_parse_in_radix [OF w, of TokenBinary 2 "''101''" 5 "[]"]
      integer_tokens_parse_in_radix [OF w, of TokenDecimal 10 "''-42''" "- 42" "[]"]
      integer_tokens_parse_in_radix [OF w, of TokenDecimal 10 "''9223372036854775808''" 9223372036854775808 "[]"]
      integer_tokens_parse_in_radix [OF w, of TokenBinary 2 "''102''" 0 "[]"]
      hex oct bin dec big bad
    unfolding s by simp
qed


text \<open>
  The text of a token is read as it is: a radix prefix left in it is no digit of the
  radix (\<open>x\<close> would be the digit 33), so the text of a hex token is the digits alone.
\<close>

lemma radix_prefix_is_no_digit:
  "ParseExpression env0 [Inr (Token TokenHex ''0x1F'')] = (Inl (NumError ErrSyntax), [])"
  by (simp add: ParseExpression.simps env0_def ParseInt_def ParseUint_def digitVal_def lower_def
      maxUint64_def)

section \<open>The reader on single forms\<close>

lemma ParseExpression_Nil: "ParseExpression env [] = (Inr SexpEnd, [])"
  by (simp add: ParseExpression.simps EndTk_def)

lemma ParseExpression_source_error: "ParseExpression env (Inl err # lexer) = (Inl err, lexer)"
  by (simp add: ParseExpression.simps)

lemma ParseExpression_result_not_End:
  assumes "ParseExpression env lexer = (Inr v, rest)" and "v \<noteq> SexpEnd"
  shows "\<exists>tok lexer'. lexer = Inr tok # lexer' \<and> PeekNextToken lexer = Inr tok
           \<and> tok_typ tok \<notin> {TokenEnd, TokenRParen, TokenRSquare, TokenRCurly, TokenDot}"
proof (cases lexer)
  case Nil
  then show ?thesis using assms by (simp add: ParseExpression_Nil)
next
  case (Cons x lexer')
  show ?thesis
  proof (cases x)
    case (Inl err)
    then show ?thesis using assms Cons by (simp add: ParseExpression_source_error)
  next
    case (Inr tok)
    have "tok_typ tok \<notin> {TokenEnd, TokenRParen, TokenRSquare, TokenRCurly, TokenDot}"
      using assms Cons Inr by (auto simp: ParseExpression.simps)
    then show ?thesis using Cons Inr by simp
  qed
qed

text \<open>
  Claim C3. In \<open>ParseList\<close>, when a dot follows the head, exactly one further expression
  is read as the tail and the next token must be a close-paren: then the result is
  \<open>SexpPair head tail\<close>; any other token there, the end of the stream included, fails
  with the error "extra value in dotted pair", never a truncated result. So "(1 . 2)"
  reads as the pair of 1 and 2, and "(1 . 2 3)" fails.
\<close>

theorem ParseList_dotted_pair:
  assumes "ParseExpression env lexer = (Inr h, Inr (Token TokenDot d) # lexer1)"
    and "h \<noteq> SexpEnd"
    and "ParseExpression env lexer1 = (Inr t, lexer2)"
  shows "ParseList env lexer =
           (case GetNextToken lexer2 of
              (Inl err, lexer3) \<Rightarrow> (Inl err, lexer3)
            | (Inr tok, lexer3) \<Rightarrow>
                if tok_typ tok = TokenRParen then (Inr (SexpPair h t), lexer3)
                else (Inl (ErrorString ''extra value in dotted pair''), lexer3))"
proof -
  obtain tok lexer' where "PeekNextToken lexer = Inr tok" "tok_typ tok \<noteq> TokenEnd" "tok_typ tok \<noteq> TokenRParen"
    using ParseExpression_result_not_End [OF assms(1,2)] by auto
  then show ?thesis
    using assms(1,3) by (simp add: ParseList.simps [of env lexer] split: prod.splits sum.splits)
qed

theorem ParseList_dotted_pair_witness:
  "ParseExpression env0 [Inr (Token TokenLParen ''(''), Inr (Token TokenDecimal ''1''), Inr (Token TokenDot ''.''),
      Inr (Token TokenDecimal ''2''), Inr (Token TokenRParen '')'')]
     = (Inr (SexpPair (SexpInt 1) (SexpInt 2)), [])
   \<and> ParseExpression env0 [Inr (Token TokenLParen ''(''), Inr (Token TokenDecimal ''1''), Inr (Token TokenDot ''.''),
      Inr (Token TokenDecimal ''2''), Inr (Token TokenDecimal ''3''), Inr (Token TokenRParen '')'')]
     = (Inl (ErrorString ''extra value in dotted pair''), [Inr (Token TokenRParen '')'')])"
proof -
  have one: "ParseExpression env0 (Inr (Token TokenDecimal ''1'') # Inr (Token TokenDot ''.'') # l)
      = (Inr (SexpInt 1), Inr (Token TokenDot ''.'') # l)" for l
    by (simp add: ParseExpression.simps ParseInt_def ParseUint_def digitVal_def lower_def maxUint64_def env0_def)
  have two: "ParseExpression env0 (Inr (Token TokenDecimal ''2'') # l) = (Inr (SexpInt 2), l)" for l
    by (simp add: ParseExpression.simps ParseInt_def ParseUint_def digitVal_def lower_def maxUint64_def env0_def)
  have ne: "(SexpInt 1 :: string Sexp) \<noteq> SexpEnd" by simp
  show ?thesis
    using ParseList_dotted_pair [OF one ne two, of "[Inr (Token TokenRParen '')'')]"]
      ParseList_dotted_pair [OF one ne two, of "[Inr (Token TokenDecimal ''3''), Inr (Token TokenRParen '')'')]"]
    by (simp add: ParseExpression.simps [of _ "Inr (Token TokenLParen _) # _"])
qed

text \<open>
  Claim C10. On a char token \<open>ParseExpression\<close> takes byte 0 of the text with no guard:
  it returns that byte as a \<open>SexpChar\<close> when the text is not empty, and the indexing is
  out of range (a run-time panic) when it is empty; so it returns a value exactly when
  the text is not empty.
\<close>

theorem ParseExpression_char_token:
  "ParseExpression env (Inr (Token TokenChar s) # lexer)
     = (if s = [] then (Inl (RuntimePanic IndexOutOfRange), lexer) else (Inr (SexpChar (s ! 0)), lexer))
   \<and> ((\<exists>v. fst (ParseExpression env (Inr (Token TokenChar s) # lexer)) = Inr v) \<longleftrightarrow> s \<noteq> [])"
  by (simp add: ParseExpression.simps)

theorem ParseExpression_char_token_witness:
  "ParseExpression env0 [Inr (Token TokenChar '''')] = (Inl (RuntimePanic IndexOutOfRange), [])
   \<and> ParseExpression env0 [Inr (Token TokenChar ''a'')] = (Inr (SexpChar CHR ''a''), [])"
  using ParseExpression_char_token [of env0 "''''" "[]"] ParseExpression_char_token [of env0 "''a''" "[]"]
  by simp

text \<open>
  Claim C1 says that \<open>SexpEnd\<close> never appears inside a value the reader returns. The
  quote-marker branches do not test what the recursive call returned: on a stream that
  ends right after a quote marker the recursive call returns the bare \<open>SexpEnd\<close> and the
  marker wraps it, where \<open>ParseList\<close>, \<open>ParseArray\<close> and \<open>ParseHash\<close> test for the
  end of the stream before they read an element.
\<close>

theorem quote_marker_wraps_End:
  "ParseExpression env [Inr (Token TokenQuote q)]
     = (Inr (SexpPair (SexpSymbol (MakeSymbol env ''quote'')) (SexpPair SexpEnd SexpNull)), [])"
  by (simp add: ParseExpression.simps EndTk_def Cons_sexp_def)

text \<open>
  Claim C2 says that the end of the stream after a dot fails with \<open>ErrUnexpectedEnd\<close>.
  \<open>ParseList\<close> tests for the end of the stream where it expects an element or the
  closing paren, but not after the tail of a dotted pair, nor before it: there the end of
  the stream is any token that is not the close-paren, and the error is "extra value in
  dotted pair".
\<close>

theorem end_after_dot_is_extra_value:
  "ParseExpression env [Inr (Token TokenLParen p), Inr (Token TokenSymbol ''a''), Inr (Token TokenDot d),
      Inr (Token TokenSymbol ''b'')]
     = (Inl (ErrorString ''extra value in dotted pair''), [])
   \<and> ParseExpression env [Inr (Token TokenLParen p), Inr (Token TokenSymbol ''a''), Inr (Token TokenDot d)]
     = (Inl (ErrorString ''extra value in dotted pair''), [])"
  by (simp add: ParseExpression.simps ParseList.simps EndTk_def)



section \<open>The reader consumes what it has looked at\<close>

text \<open>
  One step of each routine on a source that starts with a token, and what a success of
  each routine has gone through.
\<close>

lemma reads_locallyI:
  assumes "\<And>v r. f l = (Inr v, r) \<Longrightarrow> r \<noteq> [] \<Longrightarrow> \<exists>pre. l = pre @ r \<and> (\<forall>suf. f (pre @ suf) = (Inr v, suf))"
  shows "reads_locally f l"
  using assms unfolding reads_locally_def by blast

lemma reads_locallyD:
  assumes "reads_locally f l" and "f l = (Inr v, r)" and "r \<noteq> []"
  shows "\<exists>pre. l = pre @ r \<and> (\<forall>suf. f (pre @ suf) = (Inr v, suf))"
  using assms unfolding reads_locally_def by blast

lemma ParseExpression_length:
  "ParseExpression env l = (x, l') \<Longrightarrow> l \<noteq> [] \<Longrightarrow> length l' < length l"
  using parser_length(6) [of env l] by (cases l) auto

lemma ParseList_length: "ParseList env l = (x, l') \<Longrightarrow> length l' \<le> length l"
  using parser_length(1) [of env l] by simp

lemma ParseList_Nil: "ParseList env [] = (Inl ErrUnexpectedEnd, [])"
  by (simp add: ParseList.simps EndTk_def)

lemma ParseArray_loop_Nil: "ParseArray_loop env arr [] = (Inl ErrUnexpectedEnd, [])"
  by (simp add: ParseArray_loop.simps EndTk_def)

lemma ParseHash_loop_Nil: "ParseHash_loop env arr [] = (Inl ErrUnexpectedEnd, [])"
  by (simp add: ParseHash_loop.simps EndTk_def)

lemma ParseList_source_error: "ParseList env (Inl err # l) = (Inl err, Inl err # l)"
  by (simp add: ParseList.simps)

lemma ParseList_token:
  "ParseList env (Inr tok # l) =
     (if tok_typ tok = TokenEnd then (Inl ErrUnexpectedEnd, l)
      else if tok_typ tok = TokenRParen then (Inr SexpNull, l)
      else
        (case ParseExpression env (Inr tok # l) of
           (Inl err, lexer1) \<Rightarrow> (Inl err, lexer1)
         | (Inr expr, lexer1) \<Rightarrow>
             (case PeekNextToken lexer1 of
                Inl err \<Rightarrow> (Inl err, lexer1)
              | Inr tok \<Rightarrow>
                  if tok_typ tok = TokenDot then
                    (case ParseExpression env (snd (GetNextToken lexer1)) of
                       (Inl err, lexer2) \<Rightarrow> (Inl err, lexer2)
                     | (Inr expr', lexer2) \<Rightarrow>
                         (case GetNextToken lexer2 of
                            (Inl err, lexer3) \<Rightarrow> (Inl err, lexer3)
                          | (Inr tok, lexer3) \<Rightarrow>
                              if tok_typ tok \<noteq> TokenRParen
                              then (Inl (ErrorString ''extra value in dotted pair''), lexer3)
                              else (Inr (SexpPair expr expr'), lexer3)))
                  else
                    (case ParseList env lexer1 of
                       (Inl err, lexer2) \<Rightarrow> (Inl err, lexer2)
                     | (Inr expr', lexer2) \<Rightarrow> (Inr (SexpPair expr expr'), lexer2)))))"
  by (simp add: ParseList.simps [of env "Inr tok # l"])

lemma ParseList_success_first:
  assumes "ParseList env l = (Inr v, r)"
  obtains tok l' where "l = Inr tok # l'" and "tok_typ tok \<noteq> TokenEnd"
proof (cases l)
  case Nil
  then show ?thesis using assms by (simp add: ParseList_Nil)
next
  case (Cons x l')
  show ?thesis
  proof (cases x)
    case (Inl err)
    then show ?thesis using assms Cons by (simp add: ParseList_source_error)
  next
    case (Inr tok)
    then have "tok_typ tok \<noteq> TokenEnd" using assms Cons by (auto simp: ParseList_token)
    then show ?thesis using that Cons Inr by simp
  qed
qed


lemma ParseList_null: "tok_typ tok = TokenRParen \<Longrightarrow> ParseList env (Inr tok # r) = (Inr SexpNull, r)"
  by (simp add: ParseList_token)

lemma ParseList_dotted:
  assumes "tok_typ tok \<noteq> TokenEnd" "tok_typ tok \<noteq> TokenRParen"
    and "ParseExpression env (Inr tok # l) = (Inr h, Inr dot # l1)" and "tok_typ dot = TokenDot"
    and "ParseExpression env l1 = (Inr t, Inr close # r)" and "tok_typ close = TokenRParen"
  shows "ParseList env (Inr tok # l) = (Inr (SexpPair h t), r)"
  using assms by (simp add: ParseList_token)

lemma ParseList_proper:
  assumes "tok_typ tok \<noteq> TokenEnd" "tok_typ tok \<noteq> TokenRParen"
    and "ParseExpression env (Inr tok # l) = (Inr h, Inr tok1 # l1)" and "tok_typ tok1 \<noteq> TokenDot"
    and "ParseList env (Inr tok1 # l1) = (Inr t, r)"
  shows "ParseList env (Inr tok # l) = (Inr (SexpPair h t), r)"
  using assms by (simp add: ParseList_token)

lemma ParseList_success_cases:
  assumes "ParseList env l = (Inr v, r)"
  obtains
    (null) tok where "l = Inr tok # r" "tok_typ tok = TokenRParen" "v = SexpNull"
  | (dotted) tok l' h dot l1 t close where
      "l = Inr tok # l'" "tok_typ tok \<noteq> TokenEnd" "tok_typ tok \<noteq> TokenRParen"
      "ParseExpression env l = (Inr h, Inr dot # l1)" "tok_typ dot = TokenDot"
      "ParseExpression env l1 = (Inr t, Inr close # r)" "tok_typ close = TokenRParen"
      "v = SexpPair h t"
  | (proper) tok l' h tok1 l1 t where
      "l = Inr tok # l'" "tok_typ tok \<noteq> TokenEnd" "tok_typ tok \<noteq> TokenRParen"
      "ParseExpression env l = (Inr h, Inr tok1 # l1)" "tok_typ tok1 \<noteq> TokenDot"
      "ParseList env (Inr tok1 # l1) = (Inr t, r)" "v = SexpPair h t"
proof -
  obtain tok l' where l: "l = Inr tok # l'" and tE: "tok_typ tok \<noteq> TokenEnd"
    using assms by (rule ParseList_success_first)
  show ?thesis
  proof (cases "tok_typ tok = TokenRParen")
    case True
    then show ?thesis using assms l null by (simp add: ParseList_token)
  next
    case False
    obtain x lexer1 where pe: "ParseExpression env l = (x, lexer1)" by fastforce
    then obtain h where x: "x = Inr h"
      using assms l tE False by (cases x) (simp_all add: ParseList_token)
    have step: "(case PeekNextToken lexer1 of
                Inl err \<Rightarrow> (Inl err, lexer1)
              | Inr tok \<Rightarrow>
                  if tok_typ tok = TokenDot then
                    (case ParseExpression env (snd (GetNextToken lexer1)) of
                       (Inl err, lexer2) \<Rightarrow> (Inl err, lexer2)
                     | (Inr expr', lexer2) \<Rightarrow>
                         (case GetNextToken lexer2 of
                            (Inl err, lexer3) \<Rightarrow> (Inl err, lexer3)
                          | (Inr tok, lexer3) \<Rightarrow>
                              if tok_typ tok \<noteq> TokenRParen
                              then (Inl (ErrorString ''extra value in dotted pair''), lexer3)
                              else (Inr (SexpPair h expr'), lexer3)))
                  else
                    (case ParseList env lexer1 of
                       (Inl err, lexer2) \<Rightarrow> (Inl err, lexer2)
                     | (Inr expr', lexer2) \<Rightarrow> (Inr (SexpPair h expr'), lexer2))) = (Inr v, r)"
      using assms l tE False pe x by (simp add: ParseList_token)
    obtain tok1 l1 where l1: "lexer1 = Inr tok1 # l1"
    proof (cases lexer1)
      case Nil
      then show ?thesis using step by (simp add: EndTk_def ParseList_Nil)
    next
      case (Cons y l1)
      then show ?thesis using step that by (cases y) simp_all
    qed
    show ?thesis
    proof (cases "tok_typ tok1 = TokenDot")
      case True
      obtain x2 lexer2 where pe2: "ParseExpression env l1 = (x2, lexer2)" by fastforce
      then obtain t where x2: "x2 = Inr t" using step l1 True by (cases x2) simp_all
      have g: "(case GetNextToken lexer2 of
                  (Inl err, lexer3) \<Rightarrow> (Inl err, lexer3)
                | (Inr tok, lexer3) \<Rightarrow>
                    if tok_typ tok \<noteq> TokenRParen
                    then (Inl (ErrorString ''extra value in dotted pair''), lexer3)
                    else (Inr (SexpPair h t), lexer3)) = (Inr v, r)"
        using step l1 True pe2 x2 by simp
      obtain close where "lexer2 = Inr close # r" "tok_typ close = TokenRParen" "v = SexpPair h t"
      proof (cases lexer2)
        case Nil
        then show ?thesis using g by (simp add: EndTk_def)
      next
        case (Cons y l2)
        then show ?thesis using g that by (cases y) (auto split: if_splits)
      qed
      then show ?thesis
        using dotted [OF l tE False _ True] pe x l1 pe2 x2 by simp
    next
      case nd: False
      obtain x2 lexer2 where pl: "ParseList env lexer1 = (x2, lexer2)" by fastforce
      then obtain t where "x2 = Inr t" "lexer2 = r" "v = SexpPair h t"
        using step l1 nd by (cases x2) auto
      then show ?thesis
        using proper [OF l tE False _ nd, of h l1 t] pe x l1 pl by simp
    qed
  qed
qed


lemma ParseArray_loop_source_error: "ParseArray_loop env arr (Inl err # l) = (Inl err, Inl err # l)"
  by (simp add: ParseArray_loop.simps)

lemma ParseArray_loop_token:
  "ParseArray_loop env arr (Inr tok # l) =
     (if tok_typ tok = TokenEnd then (Inl ErrUnexpectedEnd, Inr tok # l)
      else if tok_typ tok = TokenRSquare then (Inr (SexpArray arr), l)
      else
        (case ParseExpression env (Inr tok # l) of
           (Inl err, lexer1) \<Rightarrow> (Inl err, lexer1)
         | (Inr expr, lexer1) \<Rightarrow> ParseArray_loop env (arr @ [expr]) lexer1))"
  by (simp add: ParseArray_loop.simps [of env arr "Inr tok # l"])

lemma ParseArray_loop_close: "tok_typ tok = TokenRSquare \<Longrightarrow> ParseArray_loop env arr (Inr tok # r) = (Inr (SexpArray arr), r)"
  by (simp add: ParseArray_loop_token)

lemma ParseArray_loop_elem:
  assumes "tok_typ tok \<noteq> TokenEnd" "tok_typ tok \<noteq> TokenRSquare"
    and "ParseExpression env (Inr tok # l) = (Inr e, l1)"
  shows "ParseArray_loop env arr (Inr tok # l) = ParseArray_loop env (arr @ [e]) l1"
  using assms by (simp add: ParseArray_loop_token)

lemma ParseArray_loop_success_cases:
  assumes "ParseArray_loop env arr l = (Inr v, r)"
  obtains
    (close) tok where "l = Inr tok # r" "tok_typ tok = TokenRSquare" "v = SexpArray arr"
  | (elem) tok l' e l1 where
      "l = Inr tok # l'" "tok_typ tok \<noteq> TokenEnd" "tok_typ tok \<noteq> TokenRSquare"
      "ParseExpression env l = (Inr e, l1)" "ParseArray_loop env (arr @ [e]) l1 = (Inr v, r)"
proof (cases l)
  case Nil
  then show ?thesis using assms by (simp add: ParseArray_loop_Nil)
next
  case (Cons x l')
  show ?thesis
  proof (cases x)
    case (Inl err)
    then show ?thesis using assms Cons by (simp add: ParseArray_loop_source_error)
  next
    case (Inr tok)
    then have l: "l = Inr tok # l'" using Cons by simp
    have tE: "tok_typ tok \<noteq> TokenEnd" using assms l by (auto simp: ParseArray_loop_token)
    show ?thesis
    proof (cases "tok_typ tok = TokenRSquare")
      case True
      then show ?thesis using assms l close by (simp add: ParseArray_loop_token)
    next
      case False
      obtain x1 l1 where pe: "ParseExpression env l = (x1, l1)" by fastforce
      then obtain e where "x1 = Inr e"
        using assms l tE False by (cases x1) (simp_all add: ParseArray_loop_token)
      then show ?thesis
        using elem [OF l tE False, of e l1] assms l tE False pe by (simp add: ParseArray_loop_token)
    qed
  qed
qed

lemma ParseHash_loop_source_error: "ParseHash_loop env arr (Inl err # l) = (Inl err, Inl err # l)"
  by (simp add: ParseHash_loop.simps)

lemma ParseHash_loop_token:
  "ParseHash_loop env arr (Inr tok # l) =
     (if tok_typ tok = TokenEnd then (Inl ErrUnexpectedEnd, Inr tok # l)
      else if tok_typ tok = TokenRCurly then (Inr (arr), l)
      else
        (case ParseExpression env (Inr tok # l) of
           (Inl err, lexer1) \<Rightarrow> (Inl err, lexer1)
         | (Inr expr, lexer1) \<Rightarrow> ParseHash_loop env (arr @ [expr]) lexer1))"
  by (simp add: ParseHash_loop.simps [of env arr "Inr tok # l"])

lemma ParseHash_loop_close: "tok_typ tok = TokenRCurly \<Longrightarrow> ParseHash_loop env arr (Inr tok # r) = (Inr (arr), r)"
  by (simp add: ParseHash_loop_token)

lemma ParseHash_loop_elem:
  assumes "tok_typ tok \<noteq> TokenEnd" "tok_typ tok \<noteq> TokenRCurly"
    and "ParseExpression env (Inr tok # l) = (Inr e, l1)"
  shows "ParseHash_loop env arr (Inr tok # l) = ParseHash_loop env (arr @ [e]) l1"
  using assms by (simp add: ParseHash_loop_token)

lemma ParseHash_loop_success_cases:
  assumes "ParseHash_loop env arr l = (Inr v, r)"
  obtains
    (close) tok where "l = Inr tok # r" "tok_typ tok = TokenRCurly" "v = arr"
  | (elem) tok l' e l1 where
      "l = Inr tok # l'" "tok_typ tok \<noteq> TokenEnd" "tok_typ tok \<noteq> TokenRCurly"
      "ParseExpression env l = (Inr e, l1)" "ParseHash_loop env (arr @ [e]) l1 = (Inr v, r)"
proof (cases l)
  case Nil
  then show ?thesis using assms by (simp add: ParseHash_loop_Nil)
next
  case (Cons x l')
  show ?thesis
  proof (cases x)
    case (Inl err)
    then show ?thesis using assms Cons by (simp add: ParseHash_loop_source_error)
  next
    case (Inr tok)
    then have l: "l = Inr tok # l'" using Cons by simp
    have tE: "tok_typ tok \<noteq> TokenEnd" using assms l by (auto simp: ParseHash_loop_token)
    show ?thesis
    proof (cases "tok_typ tok = TokenRCurly")
      case True
      then show ?thesis using assms l close by (simp add: ParseHash_loop_token)
    next
      case False
      obtain x1 l1 where pe: "ParseExpression env l = (x1, l1)" by fastforce
      then obtain e where "x1 = Inr e"
        using assms l tE False by (cases x1) (simp_all add: ParseHash_loop_token)
      then show ?thesis
        using elem [OF l tE False, of e l1] assms l tE False pe by (simp add: ParseHash_loop_token)
    qed
  qed
qed

lemma ParseExpression_atom:
  assumes "tok_typ tok \<notin> {TokenLParen, TokenLSquare, TokenLCurly, TokenQuote, TokenBacktick, TokenTilde, TokenTildeAt}"
  shows "\<exists>res. \<forall>l. ParseExpression env (Inr tok # l) = (res, l)"
proof (cases "tok_typ tok")
  case TokenDecimal
  then show ?thesis
    by (cases "ParseInt (tok_str tok) 10 (SexpIntSize env)"; cases "snd (ParseInt (tok_str tok) 10 (SexpIntSize env))")
      (simp_all add: ParseExpression.simps)
next
  case TokenHex
  then show ?thesis
    by (cases "ParseInt (tok_str tok) 16 (SexpIntSize env)"; cases "snd (ParseInt (tok_str tok) 16 (SexpIntSize env))")
      (simp_all add: ParseExpression.simps)
next
  case TokenOct
  then show ?thesis
    by (cases "ParseInt (tok_str tok) 8 (SexpIntSize env)"; cases "snd (ParseInt (tok_str tok) 8 (SexpIntSize env))")
      (simp_all add: ParseExpression.simps)
next
  case TokenBinary
  then show ?thesis
    by (cases "ParseInt (tok_str tok) 2 (SexpIntSize env)"; cases "snd (ParseInt (tok_str tok) 2 (SexpIntSize env))")
      (simp_all add: ParseExpression.simps)
next
  case TokenFloat
  then show ?thesis
    by (cases "ParseFloat env (tok_str tok)") (simp_all add: ParseExpression.simps)
next
  case TokenChar
  then show ?thesis
    by (cases "tok_str tok = []") (simp_all add: ParseExpression.simps)
qed (use assms in \<open>simp_all add: ParseExpression.simps\<close>)

lemma ParseExpression_LParen:
  "tok_typ tok = TokenLParen \<Longrightarrow> ParseExpression env (Inr tok # l) = ParseList env l"
  by (simp add: ParseExpression.simps)

lemma ParseExpression_LSquare:
  "tok_typ tok = TokenLSquare \<Longrightarrow> ParseExpression env (Inr tok # l) = ParseArray_loop env [] l"
  by (simp add: ParseExpression.simps ParseArray.simps)

lemma ParseExpression_LCurly:
  "tok_typ tok = TokenLCurly \<Longrightarrow> ParseExpression env (Inr tok # l) =
     (case ParseHash_loop env [] l of
        (Inl err, lexer1) \<Rightarrow> (Inl err, lexer1)
      | (Inr arr, lexer1) \<Rightarrow>
          (Inr (SexpPair (SexpSymbol (MakeSymbol env ''hash'')) (MakeList arr)), lexer1))"
  by (simp add: ParseExpression.simps ParseHash.simps)

lemma ParseExpression_markers:
  "tok_typ tok = TokenQuote \<Longrightarrow> ParseExpression env (Inr tok # l) =
     (case ParseExpression env l of
        (Inl err, lexer2) \<Rightarrow> (Inl err, lexer2)
      | (Inr expr, lexer2) \<Rightarrow> (Inr (MakeList [SexpSymbol (MakeSymbol env ''quote''), expr]), lexer2))"
  "tok_typ tok = TokenBacktick \<Longrightarrow> ParseExpression env (Inr tok # l) =
     (case ParseExpression env l of
        (Inl err, lexer2) \<Rightarrow> (Inl err, lexer2)
      | (Inr expr, lexer2) \<Rightarrow> (Inr (MakeList [SexpSymbol (MakeSymbol env ''syntax-quote''), expr]), lexer2))"
  "tok_typ tok = TokenTilde \<Longrightarrow> ParseExpression env (Inr tok # l) =
     (case ParseExpression env l of
        (Inl err, lexer2) \<Rightarrow> (Inl err, lexer2)
      | (Inr expr, lexer2) \<Rightarrow> (Inr (MakeList [SexpSymbol (MakeSymbol env ''unquote''), expr]), lexer2))"
  "tok_typ tok = TokenTildeAt \<Longrightarrow> ParseExpression env (Inr tok # l) =
     (case ParseExpression env l of
        (Inl err, lexer2) \<Rightarrow> (Inl err, lexer2)
      | (Inr expr, lexer2) \<Rightarrow> (Inr (MakeList [SexpSymbol (MakeSymbol env ''unquote-splicing''), expr]), lexer2))"
  by (simp_all add: ParseExpression.simps [of env "Inr tok # l"])

lemma ParseExpression_marker:
  assumes "tok_typ tok \<in> {TokenQuote, TokenBacktick, TokenTilde, TokenTildeAt}"
  shows "\<exists>name. \<forall>l. ParseExpression env (Inr tok # l) =
     (case ParseExpression env l of
        (Inl err, lexer2) \<Rightarrow> (Inl err, lexer2)
      | (Inr expr, lexer2) \<Rightarrow> (Inr (MakeList [SexpSymbol (MakeSymbol env name), expr]), lexer2))"
proof -
  have "tok_typ tok = TokenQuote \<or> tok_typ tok = TokenBacktick \<or> tok_typ tok = TokenTilde
        \<or> tok_typ tok = TokenTildeAt"
    using assms by auto
  then show ?thesis
    using ParseExpression_markers [of tok env] by (elim disjE) blast+
qed


lemma ParseList_success_shorter:
  assumes "ParseList env l = (Inr v, r)"
  shows "length r < length l"
  using assms
proof (cases rule: ParseList_success_cases)
  case (null tok)
  then show ?thesis by simp
next
  case (dotted tok l' h dot l1 t close)
  have "length (Inr dot # l1) < length l"
    using dotted(4) by (rule ParseExpression_length) (simp add: dotted(1))
  moreover have "length (Inr close # r) \<le> length l1"
    using parser_length(6) [of env l1] dotted(6) by simp
  ultimately show ?thesis by simp
next
  case (proper tok l' h tok1 l1 t)
  have "length (Inr tok1 # l1) < length l"
    using proper(4) by (rule ParseExpression_length) (simp add: proper(1))
  moreover have "length r \<le> length (Inr tok1 # l1)"
    using proper(6) by (rule ParseList_length)
  ultimately show ?thesis by simp
qed

lemma parser_reads_locally:
  "reads_locally (ParseList env) l"
  "reads_locally (ParseArray_loop env arr) l"
  "reads_locally (ParseArray env) l"
  "reads_locally (ParseHash_loop env arr') l"
  "reads_locally (ParseHash env) l"
  "reads_locally (ParseExpression env) l"
proof (induct env l and env arr l and env l and env arr' l and env l and env l
    rule: ParseList_ParseArray_loop_ParseArray_ParseHash_loop_ParseHash_ParseExpression.induct)
  case (1 env lexer)
  show ?case
  proof (rule reads_locallyI)
    fix v r
    assume res: "ParseList env lexer = (Inr v, r)" and r: "r \<noteq> []"
    from res show "\<exists>pre. lexer = pre @ r \<and> (\<forall>suf. ParseList env (pre @ suf) = (Inr v, suf))"
    proof (cases rule: ParseList_success_cases)
      case (null tok)
      then show ?thesis
        using ParseList_null [of tok env] by (intro exI [of _ "[Inr tok]"]) simp
    next
      case (dotted tok l' h dot l1 t close)
      have peek: "PeekNextToken lexer = Inr tok" using dotted(1) by simp
      obtain pre1 where p1: "lexer = pre1 @ Inr dot # l1"
        and f1: "\<And>suf. ParseExpression env (pre1 @ suf) = (Inr h, suf)"
        using reads_locallyD [OF "1.hyps"(1) [OF peek dotted(2,3)] dotted(4)] by blast
      have "length (Inr dot # l1) < length lexer"
        using dotted(4) by (rule ParseExpression_length) (simp add: dotted(1))
      then obtain pre1' where pre1: "pre1 = Inr tok # pre1'"
        using p1 dotted(1) by (cases pre1) auto
      have "reads_locally (ParseExpression env) (snd (GetNextToken (Inr dot # l1)))"
        using dotted(5) by (intro "1.hyps"(2) [OF peek dotted(2,3) dotted(4) [symmetric] refl]) simp_all
      then have rl2: "reads_locally (ParseExpression env) l1" by simp
      obtain pre2 where p2: "l1 = pre2 @ Inr close # r"
        and f2: "\<And>suf. ParseExpression env (pre2 @ suf) = (Inr t, suf)"
        using reads_locallyD [OF rl2 dotted(6)] by blast
      have "ParseList env ((pre1 @ Inr dot # pre2 @ [Inr close]) @ suf) = (Inr v, suf)" for suf
      proof -
        have "ParseList env (Inr tok # pre1' @ Inr dot # pre2 @ Inr close # suf) = (Inr (SexpPair h t), suf)"
        proof (rule ParseList_dotted [OF dotted(2,3) _ dotted(5) _ dotted(7)])
          show "ParseExpression env (Inr tok # pre1' @ Inr dot # pre2 @ Inr close # suf)
                  = (Inr h, Inr dot # pre2 @ Inr close # suf)"
            using f1 [of "Inr dot # pre2 @ Inr close # suf"] pre1 by simp
          show "ParseExpression env (pre2 @ Inr close # suf) = (Inr t, Inr close # suf)"
            by (rule f2)
        qed
        then show ?thesis using pre1 dotted(8) by simp
      qed
      then show ?thesis
        using p1 p2 by (intro exI [of _ "pre1 @ Inr dot # pre2 @ [Inr close]"]) simp
    next
      case (proper tok l' h tok1 l1 t)
      have peek: "PeekNextToken lexer = Inr tok" using proper(1) by simp
      obtain pre1 where p1: "lexer = pre1 @ Inr tok1 # l1"
        and f1: "\<And>suf. ParseExpression env (pre1 @ suf) = (Inr h, suf)"
        using reads_locallyD [OF "1.hyps"(1) [OF peek proper(2,3)] proper(4)] by blast
      have "length (Inr tok1 # l1) < length lexer"
        using proper(4) by (rule ParseExpression_length) (simp add: proper(1))
      then obtain pre1' where pre1: "pre1 = Inr tok # pre1'"
        using p1 proper(1) by (cases pre1) auto
      have rl2: "reads_locally (ParseList env) (Inr tok1 # l1)"
        using proper(5) by (intro "1.hyps"(3) [OF peek proper(2,3) proper(4) [symmetric] refl]) simp_all
      obtain pre2 where p2: "Inr tok1 # l1 = pre2 @ r"
        and f2: "\<And>suf. ParseList env (pre2 @ suf) = (Inr t, suf)"
        using reads_locallyD [OF rl2 proper(6) r] by blast
      have "length r < length (Inr tok1 # l1)"
        using proper(6) by (rule ParseList_success_shorter)
      then obtain pre2' where pre2: "pre2 = Inr tok1 # pre2'"
        using p2 by (cases pre2) auto
      have "ParseList env ((pre1 @ pre2) @ suf) = (Inr v, suf)" for suf
      proof -
        have "ParseList env (Inr tok # pre1' @ Inr tok1 # pre2' @ suf) = (Inr (SexpPair h t), suf)"
        proof (rule ParseList_proper [OF proper(2,3) _ proper(5)])
          show "ParseExpression env (Inr tok # pre1' @ Inr tok1 # pre2' @ suf)
                  = (Inr h, Inr tok1 # pre2' @ suf)"
            using f1 [of "Inr tok1 # pre2' @ suf"] pre1 by simp
          show "ParseList env (Inr tok1 # pre2' @ suf) = (Inr t, suf)"
            using f2 [of suf] pre2 by simp
        qed
        then show ?thesis using pre1 pre2 proper(7) by simp
      qed
      then show ?thesis
        using p1 p2 by (intro exI [of _ "pre1 @ pre2"]) simp
    qed
  qed
next
  case (2 env arr lexer)
  show ?case
  proof (rule reads_locallyI)
    fix v r
    assume res: "ParseArray_loop env arr lexer = (Inr v, r)" and r: "r \<noteq> []"
    from res show "\<exists>pre. lexer = pre @ r \<and> (\<forall>suf. ParseArray_loop env arr (pre @ suf) = (Inr v, suf))"
    proof (cases rule: ParseArray_loop_success_cases)
      case (close tok)
      then show ?thesis
        using ParseArray_loop_close [of tok env arr] by (intro exI [of _ "[Inr tok]"]) simp
    next
      case (elem tok l' e l1)
      have peek: "PeekNextToken lexer = Inr tok" using elem(1) by simp
      have l1: "l1 \<noteq> []" using elem(5) by (auto simp: ParseArray_loop_Nil)
      obtain pre1 where p1: "lexer = pre1 @ l1" and f1: "\<And>suf. ParseExpression env (pre1 @ suf) = (Inr e, suf)"
        using reads_locallyD [OF "2.hyps"(1) [OF peek elem(2,3)] elem(4) l1] by blast
      have "length l1 < length lexer"
        using elem(4) by (rule ParseExpression_length) (simp add: elem(1))
      then obtain pre1' where pre1: "pre1 = Inr tok # pre1'"
        using p1 elem(1) by (cases pre1) auto
      obtain pre2 where p2: "l1 = pre2 @ r"
        and f2: "\<And>suf. ParseArray_loop env (arr @ [e]) (pre2 @ suf) = (Inr v, suf)"
        using reads_locallyD [OF "2.hyps"(2) [OF peek elem(2,3) elem(4) [symmetric] refl] elem(5) r]
        by blast
      have "ParseArray_loop env arr ((pre1 @ pre2) @ suf) = (Inr v, suf)" for suf
      proof -
        have "ParseArray_loop env arr (Inr tok # pre1' @ pre2 @ suf) = ParseArray_loop env (arr @ [e]) (pre2 @ suf)"
          using f1 [of "pre2 @ suf"] pre1 by (intro ParseArray_loop_elem [OF elem(2,3)]) simp
        then show ?thesis using f2 pre1 by simp
      qed
      then show ?thesis using p1 p2 by (intro exI [of _ "pre1 @ pre2"]) simp
    qed
  qed
next
  case (3 env lexer)
  then show ?case by (simp add: reads_locally_def ParseArray.simps)
next
  case (4 env arr lexer)
  show ?case
  proof (rule reads_locallyI)
    fix v r
    assume res: "ParseHash_loop env arr lexer = (Inr v, r)" and r: "r \<noteq> []"
    from res show "\<exists>pre. lexer = pre @ r \<and> (\<forall>suf. ParseHash_loop env arr (pre @ suf) = (Inr v, suf))"
    proof (cases rule: ParseHash_loop_success_cases)
      case (close tok)
      then show ?thesis
        using ParseHash_loop_close [of tok env arr] by (intro exI [of _ "[Inr tok]"]) simp
    next
      case (elem tok l' e l1)
      have peek: "PeekNextToken lexer = Inr tok" using elem(1) by simp
      have l1: "l1 \<noteq> []" using elem(5) by (auto simp: ParseHash_loop_Nil)
      obtain pre1 where p1: "lexer = pre1 @ l1" and f1: "\<And>suf. ParseExpression env (pre1 @ suf) = (Inr e, suf)"
        using reads_locallyD [OF "4.hyps"(1) [OF peek elem(2,3)] elem(4) l1] by blast
      have "length l1 < length lexer"
        using elem(4) by (rule ParseExpression_length) (simp add: elem(1))
      then obtain pre1' where pre1: "pre1 = Inr tok # pre1'"
        using p1 elem(1) by (cases pre1) auto
      obtain pre2 where p2: "l1 = pre2 @ r"
        and f2: "\<And>suf. ParseHash_loop env (arr @ [e]) (pre2 @ suf) = (Inr v, suf)"
        using reads_locallyD [OF "4.hyps"(2) [OF peek elem(2,3) elem(4) [symmetric] refl] elem(5) r]
        by blast
      have "ParseHash_loop env arr ((pre1 @ pre2) @ suf) = (Inr v, suf)" for suf
      proof -
        have "ParseHash_loop env arr (Inr tok # pre1' @ pre2 @ suf) = ParseHash_loop env (arr @ [e]) (pre2 @ suf)"
          using f1 [of "pre2 @ suf"] pre1 by (intro ParseHash_loop_elem [OF elem(2,3)]) simp
        then show ?thesis using f2 pre1 by simp
      qed
      then show ?thesis using p1 p2 by (intro exI [of _ "pre1 @ pre2"]) simp
    qed
  qed
next
  case (5 env lexer)
  show ?case
  proof (rule reads_locallyI)
    fix v r
    assume res: "ParseHash env lexer = (Inr v, r)" and r: "r \<noteq> []"
    obtain x l1 where ph: "ParseHash_loop env [] lexer = (x, l1)" by fastforce
    then obtain arr where x: "x = Inr arr" and l1: "l1 = r"
      and v: "v = SexpPair (SexpSymbol (MakeSymbol env ''hash'')) (MakeList arr)"
      using res by (cases x) (auto simp: ParseHash.simps)
    obtain pre where p: "lexer = pre @ r"
      and f: "\<And>suf. ParseHash_loop env [] (pre @ suf) = (Inr arr, suf)"
      using reads_locallyD [OF "5.hyps", of arr r] ph x l1 r by blast
    have "ParseHash env (pre @ suf) = (Inr v, suf)" for suf
      using f [of suf] v by (simp add: ParseHash.simps)
    then show "\<exists>pre. lexer = pre @ r \<and> (\<forall>suf. ParseHash env (pre @ suf) = (Inr v, suf))"
      using p by blast
  qed
next
  case (6 env lexer)
  show ?case
  proof (rule reads_locallyI)
    fix v r
    assume res: "ParseExpression env lexer = (Inr v, r)" and r: "r \<noteq> []"
    obtain tok l1 where l: "lexer = Inr tok # l1"
    proof (cases lexer)
      case Nil
      then show ?thesis using res r by (simp add: ParseExpression_Nil)
    next
      case (Cons x l1)
      then show ?thesis using res that by (cases x) (simp_all add: ParseExpression_source_error)
    qed
    have g: "(Inr tok, l1) = GetNextToken lexer" using l by simp
    consider (atom) "tok_typ tok \<notin> {TokenLParen, TokenLSquare, TokenLCurly, TokenQuote, TokenBacktick, TokenTilde, TokenTildeAt}"
      | (list) "tok_typ tok = TokenLParen" | (array) "tok_typ tok = TokenLSquare"
      | (hash) "tok_typ tok = TokenLCurly"
      | (marker) "tok_typ tok \<in> {TokenQuote, TokenBacktick, TokenTilde, TokenTildeAt}"
      by blast
    then show "\<exists>pre. lexer = pre @ r \<and> (\<forall>suf. ParseExpression env (pre @ suf) = (Inr v, suf))"
    proof cases
      case atom
      then obtain res0 where a: "\<And>l. ParseExpression env (Inr tok # l) = (res0, l)"
        using ParseExpression_atom [of tok env] by blast
      then have "res0 = Inr v" "l1 = r" using res l by simp_all
      then show ?thesis using a l by (intro exI [of _ "[Inr tok]"]) simp
    next
      case list
      have rl: "reads_locally (ParseList env) l1" using "6.hyps"(1) [OF g refl list] .
      have pr: "ParseList env l1 = (Inr v, r)"
        using res l list by (simp add: ParseExpression_LParen)
      obtain pre where "l1 = pre @ r" "\<And>suf. ParseList env (pre @ suf) = (Inr v, suf)"
        using reads_locallyD [OF rl pr r] by blast
      then show ?thesis
        using l list by (intro exI [of _ "Inr tok # pre"]) (simp add: ParseExpression_LParen)
    next
      case array
      have rl: "reads_locally (ParseArray env) l1" using "6.hyps"(2) [OF g refl array] .
      have pr: "ParseArray env l1 = (Inr v, r)"
        using res l array by (simp add: ParseExpression_LSquare ParseArray.simps)
      obtain pre where "l1 = pre @ r" "\<And>suf. ParseArray env (pre @ suf) = (Inr v, suf)"
        using reads_locallyD [OF rl pr r] by blast
      then show ?thesis
        using l array
        by (intro exI [of _ "Inr tok # pre"]) (simp add: ParseExpression_LSquare ParseArray.simps)
    next
      case hash
      have rl: "reads_locally (ParseHash env) l1" using "6.hyps"(3) [OF g refl hash] .
      have pr: "ParseHash env l1 = (Inr v, r)"
        using res l hash by (simp add: ParseExpression_LCurly ParseHash.simps)
      obtain pre where "l1 = pre @ r" "\<And>suf. ParseHash env (pre @ suf) = (Inr v, suf)"
        using reads_locallyD [OF rl pr r] by blast
      then show ?thesis
        using l hash
        by (intro exI [of _ "Inr tok # pre"]) (simp add: ParseExpression_LCurly ParseHash.simps)
    next
      case marker
      have rl: "reads_locally (ParseExpression env) l1"
        using marker "6.hyps"(4-7) [OF g refl] by auto
      obtain name where m: "\<And>l. ParseExpression env (Inr tok # l) =
         (case ParseExpression env l of
            (Inl err, lexer2) \<Rightarrow> (Inl err, lexer2)
          | (Inr expr, lexer2) \<Rightarrow> (Inr (MakeList [SexpSymbol (MakeSymbol env name), expr]), lexer2))"
        using ParseExpression_marker [OF marker, of env] by blast
      obtain x l2 where pe: "ParseExpression env l1 = (x, l2)" by fastforce
      then obtain e where x: "x = Inr e" and l2: "l2 = r"
        and v: "v = MakeList [SexpSymbol (MakeSymbol env name), e]"
        using res l m [of l1] by (cases x) auto
      obtain pre where p: "l1 = pre @ r" and f: "\<And>suf. ParseExpression env (pre @ suf) = (Inr e, suf)"
        using reads_locallyD [OF rl, of e r] pe x l2 r by blast
      have "ParseExpression env ((Inr tok # pre) @ suf) = (Inr v, suf)" for suf
        using m [of "pre @ suf"] f [of suf] v by simp
      then show ?thesis using l p by (intro exI [of _ "Inr tok # pre"]) simp
    qed
  qed
qed


section \<open>Quote markers and hash literals\<close>

lemma reads_as_frame:
  assumes "reads_as env ts e"
  shows "ParseExpression env (ts @ suf) = (Inr e, suf)"
proof -
  have pe: "ParseExpression env (ts @ [Inr EndTk]) = (Inr e, [Inr EndTk])"
    using assms by (simp add: reads_as_def)
  obtain pre where "ts @ [Inr EndTk] = pre @ [Inr EndTk]"
    and f: "\<And>suf. ParseExpression env (pre @ suf) = (Inr e, suf)"
    using reads_locallyD [OF parser_reads_locally(6) pe] by blast
  then have "pre = ts" by simp
  then show ?thesis using f by simp
qed

lemma reads_as_first:
  assumes "reads_as env ts e"
  obtains tok ts' where "ts = Inr tok # ts'"
    and "tok_typ tok \<notin> {TokenEnd, TokenRParen, TokenRSquare, TokenRCurly, TokenDot}"
proof -
  have "ParseExpression env ts = (Inr e, [])" using reads_as_frame [OF assms, of "[]"] by simp
  moreover have "e \<noteq> SexpEnd" using assms by (simp add: reads_as_def)
  ultimately show ?thesis using ParseExpression_result_not_End that by blast
qed

lemma elements_first:
  assumes "list_all2 (reads_as env) tss es" and "tok_typ close \<noteq> TokenDot"
  obtains tok rest where "concat tss @ Inr close # suf = Inr tok # rest" and "tok_typ tok \<noteq> TokenDot"
proof (cases tss)
  case Nil
  then show ?thesis using that assms(2) by simp
next
  case (Cons ts tss')
  then obtain e where "reads_as env ts e" using assms(1) by (auto simp: list_all2_Cons1)
  then obtain tok ts' where "ts = Inr tok # ts'" "tok_typ tok \<noteq> TokenDot"
    by (rule reads_as_first) simp
  then show ?thesis using that Cons by simp
qed

lemma ParseList_elements:
  assumes "list_all2 (reads_as env) tss es" and "tok_typ close = TokenRParen"
  shows "ParseList env (concat tss @ Inr close # suf) = (Inr (MakeList es), suf)"
  using assms(1)
proof (induction tss es rule: list_all2_induct)
  case Nil
  then show ?case using assms(2) by (simp add: ParseList_null)
next
  case (Cons ts tss e es)
  obtain tok ts' where ts: "ts = Inr tok # ts'"
    and tok: "tok_typ tok \<noteq> TokenEnd" "tok_typ tok \<noteq> TokenRParen"
    using Cons.hyps(1) by (rule reads_as_first) simp
  have nd: "tok_typ close \<noteq> TokenDot" using assms(2) by simp
  obtain tok1 rest where rest: "concat tss @ Inr close # suf = Inr tok1 # rest"
    and tok1: "tok_typ tok1 \<noteq> TokenDot"
    using elements_first [OF Cons.hyps(2) nd, of suf] by blast
  have "ParseList env (Inr tok # ts' @ Inr tok1 # rest) = (Inr (SexpPair e (MakeList es)), suf)"
  proof (rule ParseList_proper [OF tok _ tok1])
    show "ParseExpression env (Inr tok # ts' @ Inr tok1 # rest) = (Inr e, Inr tok1 # rest)"
      using reads_as_frame [OF Cons.hyps(1), of "Inr tok1 # rest"] ts by simp
    show "ParseList env (Inr tok1 # rest) = (Inr (MakeList es), suf)"
      using Cons.IH rest by simp
  qed
  then show ?case using ts rest by (simp add: Cons_sexp_def)
qed

lemma ParseHash_loop_elements:
  assumes "list_all2 (reads_as env) tss es" and "tok_typ close = TokenRCurly"
  shows "ParseHash_loop env arr (concat tss @ Inr close # suf) = (Inr (arr @ es), suf)"
  using assms(1)
proof (induction tss es arbitrary: arr rule: list_all2_induct)
  case Nil
  then show ?case using assms(2) by (simp add: ParseHash_loop_close)
next
  case (Cons ts tss e es)
  obtain tok ts' where ts: "ts = Inr tok # ts'"
    and tok: "tok_typ tok \<noteq> TokenEnd" "tok_typ tok \<noteq> TokenRCurly"
    using Cons.hyps(1) by (rule reads_as_first) simp
  have "ParseHash_loop env arr (Inr tok # ts' @ concat tss @ Inr close # suf)
          = ParseHash_loop env (arr @ [e]) (concat tss @ Inr close # suf)"
    using reads_as_frame [OF Cons.hyps(1), of "concat tss @ Inr close # suf"] ts
    by (intro ParseHash_loop_elem [OF tok]) simp
  then show ?case using Cons.IH [of "arr @ [e]"] ts by simp
qed

lemma reads_as_symbol: "reads_as env [Inr (Token TokenSymbol name)] (SexpSymbol (MakeSymbol env name))"
  by (simp add: reads_as_def ParseExpression.simps)

lemma call_form:
  assumes "list_all2 (reads_as env) tss es" and "tok_typ open = TokenLParen" and "tok_typ close = TokenRParen"
  shows "ParseExpression env (Inr open # Inr (Token TokenSymbol name) # concat tss @ Inr close # suf)
           = (Inr (SexpPair (SexpSymbol (MakeSymbol env name)) (MakeList es)), suf)"
proof -
  have "list_all2 (reads_as env) ([Inr (Token TokenSymbol name)] # tss) (SexpSymbol (MakeSymbol env name) # es)"
    using assms(1) reads_as_symbol by simp
  from ParseList_elements [OF this assms(3), of suf]
  show ?thesis using assms(2) by (simp add: ParseExpression_LParen Cons_sexp_def)
qed

text \<open>
  Claim C4. Each of the four quote markers wraps exactly the single next expression as a
  two-element call list: for every expression \<open>X\<close>, with token sequence \<open>ts\<close>, the marker
  followed by \<open>ts\<close> reads as the same tree as \<open>(quote X)\<close>, \<open>(syntax-quote X)\<close>,
  \<open>(unquote X)\<close>, \<open>(unquote-splicing X)\<close> respectively, namely the list of the symbol
  and \<open>X\<close>; and what follows \<open>ts\<close> is left unread.
\<close>

theorem quote_markers_wrap_one_expression:
  assumes "reads_as env ts X"
  shows "ParseExpression env (Inr (Token TokenQuote q) # ts @ suf)
           = (Inr (MakeList [SexpSymbol (MakeSymbol env ''quote''), X]), suf)
       \<and> ParseExpression env (Inr (Token TokenLParen p) # Inr (Token TokenSymbol ''quote'') # ts
              @ Inr (Token TokenRParen p') # suf)
           = (Inr (MakeList [SexpSymbol (MakeSymbol env ''quote''), X]), suf)
       \<and> ParseExpression env (Inr (Token TokenBacktick q) # ts @ suf)
           = (Inr (MakeList [SexpSymbol (MakeSymbol env ''syntax-quote''), X]), suf)
       \<and> ParseExpression env (Inr (Token TokenLParen p) # Inr (Token TokenSymbol ''syntax-quote'') # ts
              @ Inr (Token TokenRParen p') # suf)
           = (Inr (MakeList [SexpSymbol (MakeSymbol env ''syntax-quote''), X]), suf)
       \<and> ParseExpression env (Inr (Token TokenTilde q) # ts @ suf)
           = (Inr (MakeList [SexpSymbol (MakeSymbol env ''unquote''), X]), suf)
       \<and> ParseExpression env (Inr (Token TokenLParen p) # Inr (Token TokenSymbol ''unquote'') # ts
              @ Inr (Token TokenRParen p') # suf)
           = (Inr (MakeList [SexpSymbol (MakeSymbol env ''unquote''), X]), suf)
       \<and> ParseExpression env (Inr (Token TokenTildeAt q) # ts @ suf)
           = (Inr (MakeList [SexpSymbol (MakeSymbol env ''unquote-splicing''), X]), suf)
       \<and> ParseExpression env (Inr (Token TokenLParen p) # Inr (Token TokenSymbol ''unquote-splicing'') # ts
              @ Inr (Token TokenRParen p') # suf)
           = (Inr (MakeList [SexpSymbol (MakeSymbol env ''unquote-splicing''), X]), suf)"
proof -
  have one: "ParseExpression env (ts @ suf) = (Inr X, suf)"
    using assms by (rule reads_as_frame)
  have elems: "list_all2 (reads_as env) [ts] [X]" using assms by simp
  have call: "ParseExpression env (Inr (Token TokenLParen p) # Inr (Token TokenSymbol name) # ts
              @ Inr (Token TokenRParen p') # suf)
           = (Inr (MakeList [SexpSymbol (MakeSymbol env name), X]), suf)" for name
    using call_form [OF elems, of "Token TokenLParen p" "Token TokenRParen p'" name suf]
    by (simp add: Cons_sexp_def)
  have "ParseExpression env (Inr (Token TokenQuote q) # ts @ suf)
           = (Inr (MakeList [SexpSymbol (MakeSymbol env ''quote''), X]), suf)"
    using one by (simp add: ParseExpression_markers(1))
  moreover have "ParseExpression env (Inr (Token TokenBacktick q) # ts @ suf)
           = (Inr (MakeList [SexpSymbol (MakeSymbol env ''syntax-quote''), X]), suf)"
    using one by (simp add: ParseExpression_markers(2))
  moreover have "ParseExpression env (Inr (Token TokenTilde q) # ts @ suf)
           = (Inr (MakeList [SexpSymbol (MakeSymbol env ''unquote''), X]), suf)"
    using one by (simp add: ParseExpression_markers(3))
  moreover have "ParseExpression env (Inr (Token TokenTildeAt q) # ts @ suf)
           = (Inr (MakeList [SexpSymbol (MakeSymbol env ''unquote-splicing''), X]), suf)"
    using one by (simp add: ParseExpression_markers(4))
  ultimately show ?thesis using call by simp
qed

theorem quote_markers_wrap_one_expression_witness:
  "ParseExpression env0 [Inr (Token TokenQuote []), Inr (Token TokenSymbol ''x'')]
     = ParseExpression env0 [Inr (Token TokenLParen []), Inr (Token TokenSymbol ''quote''),
         Inr (Token TokenSymbol ''x''), Inr (Token TokenRParen [])]
   \<and> ParseExpression env0 [Inr (Token TokenBacktick []), Inr (Token TokenSymbol ''x'')]
     = ParseExpression env0 [Inr (Token TokenLParen []), Inr (Token TokenSymbol ''syntax-quote''),
         Inr (Token TokenSymbol ''x''), Inr (Token TokenRParen [])]
   \<and> ParseExpression env0 [Inr (Token TokenTilde []), Inr (Token TokenSymbol ''x'')]
     = ParseExpression env0 [Inr (Token TokenLParen []), Inr (Token TokenSymbol ''unquote''),
         Inr (Token TokenSymbol ''x''), Inr (Token TokenRParen [])]
   \<and> ParseExpression env0 [Inr (Token TokenTildeAt []), Inr (Token TokenSymbol ''x'')]
     = ParseExpression env0 [Inr (Token TokenLParen []), Inr (Token TokenSymbol ''unquote-splicing''),
         Inr (Token TokenSymbol ''x''), Inr (Token TokenRParen [])]
   \<and> ParseExpression env0 [Inr (Token TokenQuote []), Inr (Token TokenSymbol ''x''), Inr (Token TokenSymbol ''y'')]
     = (Inr (SexpPair (SexpSymbol ''quote'') (SexpPair (SexpSymbol ''x'') SexpNull)),
        [Inr (Token TokenSymbol ''y'')])"
proof -
  have x: "reads_as env0 [Inr (Token TokenSymbol ''x'')] (SexpSymbol ''x'')"
    by (simp add: reads_as_def ParseExpression.simps env0_def)
  show ?thesis
    using quote_markers_wrap_one_expression [OF x, of "[]" "[]" "[]" "[]"]
      quote_markers_wrap_one_expression [OF x, of "[]" "[Inr (Token TokenSymbol ''y'')]" "[]" "[]"]
    by (simp add: Cons_sexp_def env0_def)
qed

text \<open>
  Claim C5. A hash literal never reads as a map value: \<open>ParseHash\<close> returns the call
  list \<open>Pair{Symbol("hash"), MakeList [e1 ... en]}\<close>, so \<open>{e1 ... en}\<close> reads as the
  same tree as \<open>(hash e1 ... en)\<close>, for any number of elements, odd or even.
\<close>

theorem hash_literal_reads_as_call:
  assumes "list_all2 (reads_as env) tss es"
  shows "ParseExpression env (Inr (Token TokenLCurly a) # concat tss @ Inr (Token TokenRCurly b) # suf)
           = (Inr (SexpPair (SexpSymbol (MakeSymbol env ''hash'')) (MakeList es)), suf)
       \<and> ParseExpression env (Inr (Token TokenLParen c) # Inr (Token TokenSymbol ''hash'') # concat tss
              @ Inr (Token TokenRParen d) # suf)
           = (Inr (SexpPair (SexpSymbol (MakeSymbol env ''hash'')) (MakeList es)), suf)
       \<and> (\<forall>l v r. ParseHash env l = (Inr v, r) \<longrightarrow>
             (\<exists>arr. v = SexpPair (SexpSymbol (MakeSymbol env ''hash'')) (MakeList arr)))"
proof -
  have "ParseHash_loop env [] (concat tss @ Inr (Token TokenRCurly b) # suf) = (Inr ([] @ es), suf)"
    using assms by (rule ParseHash_loop_elements) simp
  then have "ParseExpression env (Inr (Token TokenLCurly a) # concat tss @ Inr (Token TokenRCurly b) # suf)
           = (Inr (SexpPair (SexpSymbol (MakeSymbol env ''hash'')) (MakeList es)), suf)"
    by (simp add: ParseExpression_LCurly)
  moreover have "ParseExpression env (Inr (Token TokenLParen c) # Inr (Token TokenSymbol ''hash'') # concat tss
              @ Inr (Token TokenRParen d) # suf)
           = (Inr (SexpPair (SexpSymbol (MakeSymbol env ''hash'')) (MakeList es)), suf)"
    using assms by (rule call_form) simp_all
  moreover have "\<exists>arr. v = SexpPair (SexpSymbol (MakeSymbol env ''hash'')) (MakeList arr)"
    if "ParseHash env l = (Inr v, r)" for l v r
    using that by (cases "ParseHash_loop env [] l"; cases "fst (ParseHash_loop env [] l)")
      (auto simp: ParseHash.simps)
  ultimately show ?thesis by blast
qed

theorem hash_literal_reads_as_call_witness:
  "ParseExpression env0 [Inr (Token TokenLCurly []), Inr (Token TokenDecimal ''1''),
       Inr (Token TokenDecimal ''2''), Inr (Token TokenDecimal ''3''), Inr (Token TokenDecimal ''4''),
       Inr (Token TokenRCurly [])]
     = ParseExpression env0 [Inr (Token TokenLParen []), Inr (Token TokenSymbol ''hash''),
       Inr (Token TokenDecimal ''1''), Inr (Token TokenDecimal ''2''), Inr (Token TokenDecimal ''3''),
       Inr (Token TokenDecimal ''4''), Inr (Token TokenRParen [])]
   \<and> ParseExpression env0 [Inr (Token TokenLCurly []), Inr (Token TokenDecimal ''1''),
       Inr (Token TokenDecimal ''2''), Inr (Token TokenDecimal ''3''), Inr (Token TokenDecimal ''4''),
       Inr (Token TokenRCurly [])]
     = (Inr (SexpPair (SexpSymbol ''hash'') (MakeList [SexpInt 1, SexpInt 2, SexpInt 3, SexpInt 4])), [])
   \<and> ParseExpression env0 [Inr (Token TokenLCurly []), Inr (Token TokenDecimal ''1''),
       Inr (Token TokenRCurly [])]
     = (Inr (SexpPair (SexpSymbol ''hash'') (MakeList [SexpInt 1])), [])"
proof -
  have d: "reads_as env0 [Inr (Token TokenDecimal ''1'')] (SexpInt 1)"
    "reads_as env0 [Inr (Token TokenDecimal ''2'')] (SexpInt 2)"
    "reads_as env0 [Inr (Token TokenDecimal ''3'')] (SexpInt 3)"
    "reads_as env0 [Inr (Token TokenDecimal ''4'')] (SexpInt 4)"
    by (simp_all add: reads_as_def ParseExpression.simps env0_def
        ParseInt_def ParseUint_def digitVal_def lower_def maxUint64_def)
  have four: "list_all2 (reads_as env0)
      [[Inr (Token TokenDecimal ''1'')], [Inr (Token TokenDecimal ''2'')],
       [Inr (Token TokenDecimal ''3'')], [Inr (Token TokenDecimal ''4'')]]
      [SexpInt 1, SexpInt 2, SexpInt 3, SexpInt 4]"
    using d by simp
  have one: "list_all2 (reads_as env0) [[Inr (Token TokenDecimal ''1'')]] [SexpInt 1]"
    using d by simp
  show ?thesis
    using hash_literal_reads_as_call [OF four, of "[]" "[]" "[]" "[]" "[]"]
      hash_literal_reads_as_call [OF one, of "[]" "[]" "[]" "[]" "[]"]
    by (simp add: env0_def)
qed


end
